theory Spec2Isabelle
  imports Complex_Main "HOL-Library.Multiset" "HOL-Library.Product_Lexorder"
begin

section \<open>Distance normalizer: the PL/pgSQL function parse_subway_time_max_minutes\<close>

text \<open>
  Migration 005 defines \<^verbatim>\<open>parse_subway_time_max_minutes(subway_time_text TEXT) RETURNS INTEGER\<close>.
  A TEXT value is modelled as the list of the bytes of its UTF-8 encoding (\<open>string\<close>), SQL
  NULL as \<open>None\<close>. The class \<^verbatim>\<open>\d\<close> of the regular expression is taken to be the ten ASCII
  digits; no byte of a multi-byte UTF-8 sequence lies in that range, so matching on bytes and
  matching on characters find the same runs. An INTEGER is an \<open>int\<close> in the 32-bit signed
  range: the cast \<^verbatim>\<open>::INTEGER\<close> does not wrap, it raises an error, which is a value of the model.
\<close>

datatype pg_error = Numeric_Value_Out_Of_Range

definition is_digit :: "char \<Rightarrow> bool" where
  "is_digit c = (let n = (of_char c :: nat) in 48 \<le> n \<and> n \<le> 57)"

text \<open>
  \<^verbatim>\<open>regexp_matches(subway_time_text, '\d+', 'g')\<close>: all non-overlapping matches of the greedy
  pattern, leftmost first.
\<close>

function regexp_matches_digits :: "string \<Rightarrow> string list" where
  "regexp_matches_digits [] = []"
| "regexp_matches_digits (c # cs) =
     (if is_digit c
      then (c # takeWhile is_digit cs) # regexp_matches_digits (dropWhile is_digit cs)
      else regexp_matches_digits cs)"
  by pat_completeness auto
termination
  by (relation "measure length") (auto simp: length_dropWhile_le less_Suc_eq_le)

definition digit_value :: "char \<Rightarrow> int" where
  "digit_value c = int (of_char c) - 48"

definition decimal_value :: "string \<Rightarrow> int" where
  "decimal_value ds = foldl (\<lambda>acc c. acc * 10 + digit_value c) 0 ds"

definition int4_max :: int where
  "int4_max = 2147483647"

text \<open>The cast \<^verbatim>\<open>(...)[1]::INTEGER\<close> of one match (a non-empty string of digits).\<close>

definition cast_integer :: "string \<Rightarrow> pg_error + int" where
  "cast_integer ds =
     (let v = decimal_value ds
      in if v \<le> int4_max then Inr v else Inl Numeric_Value_Out_Of_Range)"

text \<open>\<^verbatim>\<open>SELECT ARRAY(SELECT (regexp_matches(...))[1]::INTEGER) INTO numbers\<close>: every match is cast;
  the first cast that fails aborts the function.\<close>

fun cast_matches :: "string list \<Rightarrow> pg_error + int list" where
  "cast_matches [] = Inr []"
| "cast_matches (m # ms) =
     (case cast_integer m of
        Inl e \<Rightarrow> Inl e
      | Inr v \<Rightarrow> (case cast_matches ms of Inl e \<Rightarrow> Inl e | Inr vs \<Rightarrow> Inr (v # vs)))"

text \<open>The \<^verbatim>\<open>FOREACH num IN ARRAY numbers LOOP ... END LOOP\<close> over the running \<open>max_time\<close>.\<close>

fun foreach_max :: "int list \<Rightarrow> int \<Rightarrow> int" where
  "foreach_max [] max_time = max_time"
| "foreach_max (num # nums) max_time =
     foreach_max nums (if num > max_time then num else max_time)"

definition parse_subway_time_max_minutes :: "string option \<Rightarrow> pg_error + int option" where
  "parse_subway_time_max_minutes subway_time_text =
     (case subway_time_text of
        None \<Rightarrow> Inr None
      | Some s \<Rightarrow>
          if s = [] then Inr None
          else (case cast_matches (regexp_matches_digits s) of
                  Inl e \<Rightarrow> Inl e
                | Inr numbers \<Rightarrow>
                    (case numbers of
                       [] \<Rightarrow> Inr None
                     | n1 # _ \<Rightarrow> Inr (Some (foreach_max numbers n1)))))"

subsection \<open>The specification's vocabulary: maximal runs of decimal digits\<close>

text \<open>
  \<open>r\<close> is a maximal run of digits of \<open>s\<close>: a non-empty block of digits that is preceded by
  the start of the text or a non-digit, and followed by the end of the text or a non-digit.
\<close>

definition maximal_digit_run :: "string \<Rightarrow> string \<Rightarrow> bool" where
  "maximal_digit_run s r \<longleftrightarrow>
     (\<exists>pre post. s = pre @ r @ post \<and> r \<noteq> [] \<and> list_all is_digit r
        \<and> (pre = [] \<or> \<not> is_digit (last pre))
        \<and> (post = [] \<or> \<not> is_digit (hd post)))"

definition run_values :: "string \<Rightarrow> int set" where
  "run_values s = {decimal_value r | r. maximal_digit_run s r}"

text \<open>The texts of the documented examples, as UTF-8 bytes.\<close>

definition hangul_bun :: string where
  "hangul_bun = [CHR 0xEB, CHR 0xB6, CHR 0x84]"

definition hangul_inae :: string where
  "hangul_inae = [CHR 0xEC, CHR 0x9D, CHR 0xB4, CHR 0xEB, CHR 0x82, CHR 0xB4]"

definition hangul_yeoksegwon :: string where
  "hangul_yeoksegwon =
     [CHR 0xEC, CHR 0x97, CHR 0xAD, CHR 0xEC, CHR 0x84, CHR 0xB8, CHR 0xEA, CHR 0xB6, CHR 0x8C]"

section \<open>SQL rows, three-valued conditions and the predicates of the partial indexes\<close>

text \<open>
  A nullable column is an \<open>option\<close>, and so is the value of a condition: \<open>None\<close> is
  UNKNOWN. A row satisfies a WHERE clause when the condition evaluates to \<open>Some True\<close>.
\<close>

type_synonym sql_bool = "bool option"

definition sql_and :: "sql_bool \<Rightarrow> sql_bool \<Rightarrow> sql_bool" where
  "sql_and a b =
     (if a = Some False \<or> b = Some False then Some False
      else if a = None \<or> b = None then None
      else Some True)"

definition sql_or :: "sql_bool \<Rightarrow> sql_bool \<Rightarrow> sql_bool" where
  "sql_or a b =
     (if a = Some True \<or> b = Some True then Some True
      else if a = None \<or> b = None then None
      else Some False)"

definition sql_eq :: "'a option \<Rightarrow> 'a option \<Rightarrow> sql_bool" where
  "sql_eq a b =
     (case a of None \<Rightarrow> None | Some x \<Rightarrow> (case b of None \<Rightarrow> None | Some y \<Rightarrow> Some (x = y)))"

definition sql_neq :: "'a option \<Rightarrow> 'a option \<Rightarrow> sql_bool" where
  "sql_neq a b =
     (case a of None \<Rightarrow> None | Some x \<Rightarrow> (case b of None \<Rightarrow> None | Some y \<Rightarrow> Some (x \<noteq> y)))"

definition sql_is_null :: "'a option \<Rightarrow> sql_bool" where
  "sql_is_null a = Some (a = None)"

definition sql_is_not_null :: "'a option \<Rightarrow> sql_bool" where
  "sql_is_not_null a = Some (a \<noteq> None)"

subsection \<open>Apartment details and the transit-distance partial index\<close>

text \<open>The columns of the apartment-detail table that the indexes and the filters read.\<close>

record apart_detail =
  apt_detail_id :: int
  detail_apt_id :: int
  total_household_cnt :: int
  subway_time :: "string option"
  education_facility :: "string option"
  detail_is_deleted :: "bool option"

text \<open>
  The predicate of \<^verbatim>\<open>idx_apart_details_subway_time_parsed\<close>:
  \<^verbatim>\<open>WHERE is_deleted = FALSE AND subway_time IS NOT NULL AND subway_time != ''
    AND parse_subway_time_max_minutes(subway_time) IS NOT NULL\<close>.
  The conjuncts are evaluated in the order written and the evaluation stops at the first one
  that is not true, so the function is called only on rows that pass the first three. The
  result says whether the row has an entry in the index; an error of the function is an error
  of the statement that maintains the index.
\<close>

definition idx_apart_details_subway_time_parsed :: "apart_detail \<Rightarrow> pg_error + bool" where
  "idx_apart_details_subway_time_parsed row =
     (if sql_and (sql_and (sql_eq (detail_is_deleted row) (Some False))
                          (sql_is_not_null (subway_time row)))
                 (sql_neq (subway_time row) (Some [])) \<noteq> Some True
      then Inr False
      else (case parse_subway_time_max_minutes (subway_time row) of
              Inl e \<Rightarrow> Inl e
            | Inr v \<Rightarrow> Inr (sql_is_not_null v = Some True)))"

subsection \<open>Apartments and the region partial index\<close>

text \<open>The columns of the apartment table that the indexes and the filters read; the
  soft-delete flag is nullable, with FALSE as the column default.\<close>

record apartment =
  apartment_id :: int
  region_id :: int
  apt_name :: string
  kapt_code :: string
  apartment_is_deleted :: "bool option"

text \<open>
  The predicate of \<^verbatim>\<open>idx_apartments_region_apt_name\<close>, the index on
  \<^verbatim>\<open>apartments(region_id, apt_name, apt_id)\<close>: \<^verbatim>\<open>WHERE is_deleted = FALSE\<close>.
\<close>

definition idx_apartments_region_apt_name :: "apartment \<Rightarrow> bool" where
  "idx_apartments_region_apt_name row \<longleftrightarrow>
     sql_eq (apartment_is_deleted row) (Some False) = Some True"

text \<open>The soft-delete clause of the validity predicates:
  \<^verbatim>\<open>(is_deleted = FALSE OR is_deleted IS NULL)\<close>.\<close>

definition not_deleted :: "bool option \<Rightarrow> sql_bool" where
  "not_deleted deleted = sql_or (sql_eq deleted (Some False)) (sql_is_null deleted)"

subsection \<open>SALES, RENTS and the validity predicates\<close>

text \<open>
  A transaction is a row of SALES or of RENTS: the shared columns are fields of the record,
  the columns of one table only are the arguments of the variant. \<^verbatim>\<open>is_canceled\<close> is a
  column of SALES only and is declared NOT NULL; \<^verbatim>\<open>is_deleted\<close> and \<^verbatim>\<open>remarks\<close> are
  nullable. Dates are day numbers. The contract date and the prices are present in every
  record, as in the record model of the specification.
\<close>

datatype variant =
    Sale (trans_price: int) (is_canceled: bool)
  | Rent (deposit_price: int) (monthly_rent: int)

record transaction_record =
  trans_id :: int
  apt_id :: int
  contract_date :: int
  exclusive_area :: rat
  floor_no :: int
  building_num :: "string option"
  is_deleted :: "bool option"
  remarks :: "string option"
  variant :: variant

text \<open>The marker of synthetic test rows, the literal of the index predicates (two Hangul
  syllables, as UTF-8 bytes).\<close>

definition dummy_marker :: string where
  "dummy_marker = [CHR 0xEB, CHR 0x8D, CHR 0x94, CHR 0xEB, CHR 0xAF, CHR 0xB8]"

text \<open>
  The predicate of \<^verbatim>\<open>idx_sales_apt_id_filtered\<close> (valid sales of an apartment):
  \<^verbatim>\<open>WHERE is_canceled = FALSE AND (is_deleted = FALSE OR is_deleted IS NULL)
    AND (remarks != dummy OR remarks IS NULL)\<close>.
\<close>

definition sales_filtered :: "bool \<Rightarrow> bool option \<Rightarrow> string option \<Rightarrow> sql_bool" where
  "sales_filtered canceled deleted rem =
     sql_and (sql_and (sql_eq (Some canceled) (Some False)) (not_deleted deleted))
             (sql_or (sql_neq rem (Some dummy_marker)) (sql_is_null rem))"

text \<open>
  The predicate of \<^verbatim>\<open>idx_rents_apt_id_filtered\<close> (valid rents of an apartment):
  \<^verbatim>\<open>WHERE (is_deleted = FALSE OR is_deleted IS NULL) AND (remarks != dummy OR remarks IS NULL)\<close>.
\<close>

definition rents_filtered :: "bool option \<Rightarrow> string option \<Rightarrow> sql_bool" where
  "rents_filtered deleted rem =
     sql_and (not_deleted deleted)
             (sql_or (sql_neq rem (Some dummy_marker)) (sql_is_null rem))"

definition is_valid :: "transaction_record \<Rightarrow> bool" where
  "is_valid r =
     (case variant r of
        Sale p c \<Rightarrow> sales_filtered c (is_deleted r) (remarks r) = Some True
      | Rent d m \<Rightarrow> rents_filtered (is_deleted r) (remarks r) = Some True)"

text \<open>The cancellation flag of a record: absent in a rent.\<close>

definition is_cancelled_of :: "transaction_record \<Rightarrow> bool option" where
  "is_cancelled_of r = (case variant r of Sale p c \<Rightarrow> Some c | Rent d m \<Rightarrow> None)"

section \<open>The body of parse_subway_time_max_minutes, statement by statement\<close>



















section \<open>The search-and-aggregation engine\<close>

text \<open>
  Modelled from the spec: the sources hold the schema, the parser and the index definitions;
  the record store, the index manager, the search executor and the aggregator are not among
  them. This section follows the specification (its data model, the index manager, the
  search executor, the aggregator and the error taxonomy), on top of what the sources do
  define: the validity predicate, the parser, and the predicates of the region index and of
  the transit index.
\<close>

text \<open>Modelled from the spec: the failure of a search on malformed range bounds.\<close>

datatype search_error = InvalidFilter

text \<open>Modelled from the spec: the sort keys a caller may request instead of the default
  order.\<close>

datatype sort_field = SortByPrice | SortByArea

text \<open>Modelled from the spec: the access paths of the executor, one for each of the four
  index structures (by apartment, globally by contract date, apartments of a region,
  apartments with a transit distance) and the full scan of the base store.\<close>

datatype index_choice = ByApartment int | ByDate | ByRegion int | ByTransit | Scan

text \<open>Modelled from the spec: the filter specification, every predicate optional; ranges are
  pairs of an inclusive lower and an inclusive upper bound.\<close>

record filter_spec =
  f_region_id :: "int option"
  f_apt_id :: "int option"
  f_date_range :: "(int \<times> int) option"
  f_price_range :: "(int \<times> int) option"
  f_area_range :: "(rat \<times> rat) option"
  f_max_transit_minutes :: "int option"
  f_min_unit_count :: "int option"
  f_education :: bool
  f_sort :: "sort_field option"

text \<open>Modelled from the spec: an index entry is the contract date of a record and its
  transaction id (the pointer into the base store).\<close>

type_synonym index_entry = "int \<times> int"

text \<open>Modelled from the spec: the engine state, the base store, the two dimension tables, the
  four index structures, and a counter of index rebuilds from scratch. The region index
  lists the apartments of a region (id and name), the transit index the apartments of the
  detail rows it covers.\<close>

record engine =
  store :: "transaction_record list"
  apartments :: "apartment list"
  details :: "apart_detail list"
  by_apt :: "int \<Rightarrow> index_entry list"
  by_date :: "index_entry list"
  by_region :: "int \<Rightarrow> (int \<times> string) list"
  by_transit :: "int list"
  rebuilds :: nat

text \<open>Modelled from the spec: the price of a record, the transaction price of a sale and the
  deposit of a rent.\<close>

definition price_of :: "transaction_record \<Rightarrow> int" where
  "price_of r = (case variant r of Sale p c \<Rightarrow> p | Rent d m \<Rightarrow> d)"

text \<open>Modelled from the spec: index entries are kept by contract date descending, then
  transaction id ascending.\<close>

definition entry :: "transaction_record \<Rightarrow> index_entry" where
  "entry r = (contract_date r, trans_id r)"

text \<open>Modelled from the spec: the sort key of an index entry (date descending, id ascending).\<close>

definition entry_key :: "index_entry \<Rightarrow> int \<times> int" where
  "entry_key e = (- fst e, snd e)"

text \<open>Modelled from the spec: the incremental insertion of an entry at its place in an index.\<close>

definition index_insert :: "index_entry \<Rightarrow> index_entry list \<Rightarrow> index_entry list" where
  "index_insert e es = insort_key entry_key e es"

text \<open>Modelled from the spec: the logical removal of the entries of a record from an index.\<close>

definition index_remove :: "int \<Rightarrow> index_entry list \<Rightarrow> index_entry list" where
  "index_remove i es = filter (\<lambda>e. snd e \<noteq> i) es"

text \<open>Modelled from the spec: reading a record of the base store by its transaction id.\<close>

definition fetch :: "engine \<Rightarrow> int \<Rightarrow> transaction_record option" where
  "fetch st i = find (\<lambda>r. trans_id r = i) (store st)"

text \<open>The entries of the region index for a region: the apartments of the region whose row
  satisfies the predicate of \<^verbatim>\<open>idx_apartments_region_apt_name\<close>.\<close>

definition region_index :: "apartment list \<Rightarrow> int \<Rightarrow> (int \<times> string) list" where
  "region_index aps g =
     map (\<lambda>p. (apartment_id p, apt_name p))
       (filter (\<lambda>p. idx_apartments_region_apt_name p \<and> region_id p = g) aps)"

text \<open>The entries of the transit index: the apartment ids of the detail rows that satisfy
  the predicate of \<^verbatim>\<open>idx_apart_details_subway_time_parsed\<close>.\<close>

definition transit_index :: "apart_detail list \<Rightarrow> int list" where
  "transit_index dts =
     map detail_apt_id (filter (\<lambda>d. idx_apart_details_subway_time_parsed d = Inr True) dts)"

text \<open>Modelled from the spec: the engine after bulk ingestion of the dimension rows, with no
  transaction yet.\<close>

definition init_engine :: "apartment list \<Rightarrow> apart_detail list \<Rightarrow> engine" where
  "init_engine aps dts =
     \<lparr>store = [], apartments = aps, details = dts, by_apt = (\<lambda>a. []), by_date = [],
      by_region = region_index aps, by_transit = transit_index dts, rebuilds = 0\<rparr>"

text \<open>Modelled from the spec: ingestion of a transaction. The record is appended to the base
  store and, when valid, entered into each index; a record whose id is already stored is
  refused (the id is the primary key).\<close>

definition insert_tx :: "transaction_record \<Rightarrow> engine \<Rightarrow> engine" where
  "insert_tx r st =
     (if trans_id r \<in> set (map trans_id (store st)) then st
      else if is_valid r
      then st\<lparr>store := store st @ [r],
              by_apt := (by_apt st)(apt_id r := index_insert (entry r) (by_apt st (apt_id r))),
              by_date := index_insert (entry r) (by_date st)\<rparr>
      else st\<lparr>store := store st @ [r]\<rparr>)"

text \<open>Modelled from the spec: the soft delete of a record sets its flag to true.\<close>

definition mark_deleted :: "transaction_record \<Rightarrow> transaction_record" where
  "mark_deleted r = r\<lparr>is_deleted := Some True\<rparr>"

text \<open>Modelled from the spec: the cancellation of a sale sets its flag to true; a rent has no such flag.\<close>

definition mark_cancelled :: "transaction_record \<Rightarrow> transaction_record" where
  "mark_cancelled r =
     (case variant r of Sale p c \<Rightarrow> r\<lparr>variant := Sale p True\<rparr> | Rent d m \<Rightarrow> r)"

text \<open>Modelled from the spec: a validity-changing mutation rewrites the flag of the record in
  the base store, where the record stays, and removes its entries from the indexes.\<close>

definition soft_delete :: "int \<Rightarrow> engine \<Rightarrow> engine" where
  "soft_delete i st =
     st\<lparr>store := map (\<lambda>r. if trans_id r = i then mark_deleted r else r) (store st),
        by_apt := (\<lambda>a. index_remove i (by_apt st a)),
        by_date := index_remove i (by_date st)\<rparr>"

text \<open>Modelled from the spec: cancellation applies to sales only.\<close>

definition cancel :: "int \<Rightarrow> engine \<Rightarrow> engine" where
  "cancel i st =
     (case fetch st i of
        None \<Rightarrow> st
      | Some r \<Rightarrow>
          (case variant r of
             Rent d m \<Rightarrow> st
           | Sale p c \<Rightarrow>
               st\<lparr>store := map (\<lambda>r. if trans_id r = i then mark_cancelled r else r) (store st),
                  by_apt := (\<lambda>a. index_remove i (by_apt st a)),
                  by_date := index_remove i (by_date st)\<rparr>))"

text \<open>Modelled from the spec: the rebuild on bulk load recomputes every index from the valid
  records of the base store and swaps it in.\<close>

definition rebuild_indexes :: "engine \<Rightarrow> engine" where
  "rebuild_indexes st =
     st\<lparr>by_apt := (\<lambda>a. sort_key entry_key
                       (map entry (filter (\<lambda>r. is_valid r \<and> apt_id r = a) (store st)))),
        by_date := sort_key entry_key (map entry (filter is_valid (store st))),
        by_region := region_index (apartments st),
        by_transit := transit_index (details st),
        rebuilds := Suc (rebuilds st)\<rparr>"

text \<open>Modelled from the spec: the writes of the engine and their sequential execution.\<close>

datatype operation = Insert transaction_record | Cancel int | SoftDelete int | Rebuild

text \<open>Modelled from the spec: the effect of one write on the engine.\<close>

fun apply_op :: "operation \<Rightarrow> engine \<Rightarrow> engine" where
  "apply_op (Insert r) st = insert_tx r st"
| "apply_op (Cancel i) st = cancel i st"
| "apply_op (SoftDelete i) st = soft_delete i st"
| "apply_op Rebuild st = rebuild_indexes st"

text \<open>Modelled from the spec: writes are serialized; a sequence of writes is executed in order.\<close>

fun run :: "operation list \<Rightarrow> engine \<Rightarrow> engine" where
  "run [] st = st"
| "run (x # xs) st = run xs (apply_op x st)"

text \<open>Modelled from the spec: the reachable states, those that some sequence of writes produces from an engine without transactions.\<close>

definition reachable :: "engine \<Rightarrow> bool" where
  "reachable st \<longleftrightarrow> (\<exists>aps dts ops. st = run ops (init_engine aps dts))"

subsection \<open>Search executor\<close>

text \<open>Modelled from the spec: the lookup of an apartment in the apartment dimension, by
  its apartment id.\<close>

definition apartment_of :: "engine \<Rightarrow> int \<Rightarrow> apartment option" where
  "apartment_of st a = find (\<lambda>p. apartment_id p = a) (apartments st)"

text \<open>Modelled from the spec: the detail record of an apartment, the one with the lowest detail id when the table holds several.\<close>

definition detail_of :: "engine \<Rightarrow> int \<Rightarrow> apart_detail option" where
  "detail_of st a =
     (case filter (\<lambda>d. detail_apt_id d = a) (details st) of
        [] \<Rightarrow> None
      | d # ds \<Rightarrow>
          Some (foldl (\<lambda>m x. if apt_detail_id x < apt_detail_id m then x else m) d ds))"

text \<open>Modelled from the spec: the transit minutes of an apartment, the parsed distance of its
  detail record; a text without a parseable number gives no distance.\<close>

definition transit_minutes :: "engine \<Rightarrow> int \<Rightarrow> int option" where
  "transit_minutes st a =
     (case detail_of st a of
        None \<Rightarrow> None
      | Some d \<Rightarrow>
          (case parse_subway_time_max_minutes (subway_time d) of
             Inr (Some m) \<Rightarrow> Some m
           | _ \<Rightarrow> None))"

text \<open>Modelled from the spec: the predicates of a filter specification. An absent predicate
  imposes no constraint; a transit, unit-count or education predicate excludes apartments
  without the data.\<close>

definition region_ok :: "engine \<Rightarrow> filter_spec \<Rightarrow> transaction_record \<Rightarrow> bool" where
  "region_ok st f r =
     (case f_region_id f of
        None \<Rightarrow> True
      | Some g \<Rightarrow>
          (case apartment_of st (apt_id r) of None \<Rightarrow> False | Some p \<Rightarrow> region_id p = g))"

text \<open>Modelled from the spec: the apartment predicate of a filter.\<close>

definition apartment_ok :: "filter_spec \<Rightarrow> transaction_record \<Rightarrow> bool" where
  "apartment_ok f r = (case f_apt_id f of None \<Rightarrow> True | Some a \<Rightarrow> apt_id r = a)"

text \<open>Modelled from the spec: the contract-date range of a filter, both bounds inclusive.\<close>

definition date_ok :: "filter_spec \<Rightarrow> transaction_record \<Rightarrow> bool" where
  "date_ok f r =
     (case f_date_range f of
        None \<Rightarrow> True
      | Some (lo, hi) \<Rightarrow> lo \<le> contract_date r \<and> contract_date r \<le> hi)"

text \<open>Modelled from the spec: the price range of a filter, both bounds inclusive.\<close>

definition price_ok :: "filter_spec \<Rightarrow> transaction_record \<Rightarrow> bool" where
  "price_ok f r =
     (case f_price_range f of
        None \<Rightarrow> True
      | Some (lo, hi) \<Rightarrow> lo \<le> price_of r \<and> price_of r \<le> hi)"

text \<open>Modelled from the spec: the area range of a filter, both bounds inclusive.\<close>

definition area_ok :: "filter_spec \<Rightarrow> transaction_record \<Rightarrow> bool" where
  "area_ok f r =
     (case f_area_range f of
        None \<Rightarrow> True
      | Some (lo, hi) \<Rightarrow> lo \<le> exclusive_area r \<and> exclusive_area r \<le> hi)"

text \<open>Modelled from the spec: the maximum transit minutes of a filter; an apartment without a parsed distance does not match.\<close>

definition transit_ok :: "engine \<Rightarrow> filter_spec \<Rightarrow> transaction_record \<Rightarrow> bool" where
  "transit_ok st f r =
     (case f_max_transit_minutes f of
        None \<Rightarrow> True
      | Some n \<Rightarrow> (case transit_minutes st (apt_id r) of None \<Rightarrow> False | Some m \<Rightarrow> m \<le> n))"

text \<open>Modelled from the spec: the minimum unit count of a filter; an apartment without a detail record does not match.\<close>

definition units_ok :: "engine \<Rightarrow> filter_spec \<Rightarrow> transaction_record \<Rightarrow> bool" where
  "units_ok st f r =
     (case f_min_unit_count f of
        None \<Rightarrow> True
      | Some n \<Rightarrow>
          (case detail_of st (apt_id r) of None \<Rightarrow> False | Some d \<Rightarrow> n \<le> total_household_cnt d))"

text \<open>Modelled from the spec: the presence of nearby education facilities, a description that is neither NULL nor empty.\<close>

definition education_ok :: "engine \<Rightarrow> filter_spec \<Rightarrow> transaction_record \<Rightarrow> bool" where
  "education_ok st f r =
     (if f_education f
      then (case detail_of st (apt_id r) of
              None \<Rightarrow> False
            | Some d \<Rightarrow> education_facility d \<noteq> None \<and> education_facility d \<noteq> Some [])
      else True)"

text \<open>Modelled from the spec: all supplied predicates are conjoined.\<close>

definition matches :: "engine \<Rightarrow> filter_spec \<Rightarrow> transaction_record \<Rightarrow> bool" where
  "matches st f r \<longleftrightarrow>
     region_ok st f r \<and> apartment_ok f r \<and> date_ok f r \<and> price_ok f r \<and> area_ok f r
     \<and> transit_ok st f r \<and> units_ok st f r \<and> education_ok st f r"

text \<open>Modelled from the spec: a range is well formed when its lower bound does not exceed its
  upper bound.\<close>

definition ranges_ok :: "filter_spec \<Rightarrow> bool" where
  "ranges_ok f \<longleftrightarrow>
     (case f_date_range f of None \<Rightarrow> True | Some (lo, hi) \<Rightarrow> lo \<le> hi)
     \<and> (case f_price_range f of None \<Rightarrow> True | Some (lo, hi) \<Rightarrow> lo \<le> hi)
     \<and> (case f_area_range f of None \<Rightarrow> True | Some (lo, hi) \<Rightarrow> lo \<le> hi)"

text \<open>Modelled from the spec: the number of leading key fields of the index by apartment
  (apartment, date) that the filter supplies.\<close>

definition prefix_by_apt :: "filter_spec \<Rightarrow> nat" where
  "prefix_by_apt f =
     (if f_apt_id f = None then 0 else if f_date_range f = None then 1 else 2)"

text \<open>Modelled from the spec: the number of leading key fields of the global index (date, price, area) that the filter supplies.\<close>

definition prefix_by_date :: "filter_spec \<Rightarrow> nat" where
  "prefix_by_date f =
     (if f_date_range f = None then 0
      else if f_price_range f = None then 1
      else if f_area_range f = None then 2
      else 3)"

text \<open>Modelled from the spec: the number of leading key fields of the region index (region,
  apartment) that the filter supplies.\<close>

definition prefix_by_region :: "filter_spec \<Rightarrow> nat" where
  "prefix_by_region f =
     (if f_region_id f = None then 0 else if f_apt_id f = None then 1 else 2)"

text \<open>Modelled from the spec: the transit index serves filters on the transit minutes only;
  its key is the apartment.\<close>

definition prefix_by_transit :: "filter_spec \<Rightarrow> nat" where
  "prefix_by_transit f =
     (if f_max_transit_minutes f = None then 0 else if f_apt_id f = None then 1 else 2)"

text \<open>Modelled from the spec: the choice of the access path for a filter, the index with the
  most leading fields supplied; on a tie the first of the index by apartment, the global
  index by date, the region index and the transit index.\<close>

definition choose_index :: "filter_spec \<Rightarrow> index_choice" where
  "choose_index f =
     (let best = max (max (prefix_by_apt f) (prefix_by_date f))
                     (max (prefix_by_region f) (prefix_by_transit f))
      in if best = 0 then Scan
         else if prefix_by_apt f = best
           then (case f_apt_id f of Some a \<Rightarrow> ByApartment a | None \<Rightarrow> Scan)
         else if prefix_by_date f = best then ByDate
         else if prefix_by_region f = best
           then (case f_region_id f of Some g \<Rightarrow> ByRegion g | None \<Rightarrow> Scan)
         else ByTransit)"

text \<open>Modelled from the spec: an access path can serve a filter whose fields match its key,
  the index of an apartment a filter on that apartment, the index of a region a filter on
  that region, the transit index a filter on the transit minutes.\<close>

definition applicable :: "index_choice \<Rightarrow> filter_spec \<Rightarrow> bool" where
  "applicable c f =
     (case c of
        ByApartment a \<Rightarrow> f_apt_id f = Some a
      | ByRegion g \<Rightarrow> f_region_id f = Some g
      | ByTransit \<Rightarrow> f_max_transit_minutes f \<noteq> None
      | _ \<Rightarrow> True)"

text \<open>Modelled from the spec: the records of a list of apartments, read through the index by
  apartment, every apartment once.\<close>

definition records_of_apartments :: "engine \<Rightarrow> int list \<Rightarrow> transaction_record list" where
  "records_of_apartments st as =
     concat (map (\<lambda>a. List.map_filter (\<lambda>e. fetch st (snd e)) (by_apt st a)) (remdups as))"

text \<open>Modelled from the spec: the records an access path delivers, read from the base store
  through the entries of the index, or all records of the store for the scan. The region
  index and the transit index deliver apartments, whose records are then read.\<close>

definition candidates :: "index_choice \<Rightarrow> engine \<Rightarrow> transaction_record list" where
  "candidates c st =
     (case c of
        ByApartment a \<Rightarrow> List.map_filter (\<lambda>e. fetch st (snd e)) (by_apt st a)
      | ByDate \<Rightarrow> List.map_filter (\<lambda>e. fetch st (snd e)) (by_date st)
      | ByRegion g \<Rightarrow> records_of_apartments st (map fst (by_region st g))
      | ByTransit \<Rightarrow> records_of_apartments st (by_transit st)
      | Scan \<Rightarrow> store st)"

text \<open>
  The dimension rows an access path depends on are all in its index: for the region index,
  every apartment row of the region has its soft-delete flag explicitly false; for the
  transit index, so has every detail row whose transit text parses to a present value. The
  other access paths depend on no dimension row.
\<close>

definition path_covers :: "index_choice \<Rightarrow> engine \<Rightarrow> bool" where
  "path_covers c st =
     (case c of
        ByRegion g \<Rightarrow>
          list_all (\<lambda>p. if region_id p = g then apartment_is_deleted p = Some False else True)
            (apartments st)
      | ByTransit \<Rightarrow>
          list_all (\<lambda>d. case parse_subway_time_max_minutes (subway_time d) of
                           Inr (Some m) \<Rightarrow> detail_is_deleted d = Some False
                         | _ \<Rightarrow> True)
            (details st)
      | _ \<Rightarrow> True)"

text \<open>Modelled from the spec: the index lookups an access path performs, none for the scan.\<close>

definition lookups :: "index_choice \<Rightarrow> index_choice list" where
  "lookups c = (case c of Scan \<Rightarrow> [] | _ \<Rightarrow> [c])"

text \<open>Modelled from the spec: the default order, contract date descending and transaction id
  ascending, and a requested key applied as a stable sort on top of it.\<close>

definition order_key :: "transaction_record \<Rightarrow> int \<times> int" where
  "order_key r = (- contract_date r, trans_id r)"

text \<open>Modelled from the spec: the ordering of a result, by the default key and then stably by the requested one.\<close>

definition order_results :: "filter_spec \<Rightarrow> transaction_record list \<Rightarrow> transaction_record list" where
  "order_results f xs =
     (case f_sort f of
        None \<Rightarrow> sort_key order_key xs
      | Some SortByPrice \<Rightarrow> sort_key price_of (sort_key order_key xs)
      | Some SortByArea \<Rightarrow> sort_key exclusive_area (sort_key order_key xs))"

text \<open>Modelled from the spec: a search checks the ranges before anything else; then it reads
  the candidates of the access path, keeps the valid records that satisfy every supplied
  predicate (validity is evaluated on the record as read), and orders them. The second
  component lists the index lookups performed.\<close>

definition search_via ::
  "index_choice \<Rightarrow> engine \<Rightarrow> filter_spec
     \<Rightarrow> (search_error + transaction_record list) \<times> index_choice list" where
  "search_via c st f =
     (if \<not> ranges_ok f then (Inl InvalidFilter, [])
      else (Inr (order_results f
                   (filter (\<lambda>r. is_valid r \<and> matches st f r) (candidates c st))),
            lookups c))"

text \<open>Modelled from the spec: search runs on the access path chosen for the filter.\<close>

definition search ::
  "engine \<Rightarrow> filter_spec \<Rightarrow> (search_error + transaction_record list) \<times> index_choice list" where
  "search st f = search_via (choose_index f) st f"

subsection \<open>Aggregator\<close>

text \<open>Modelled from the spec: the statistics of a trailing window. The start of the window is
  the window end moved back by the window length in months; the calendar arithmetic is not
  fixed by the specification and is a parameter \<open>months_before\<close>. Both ends are inclusive.\<close>

record stats =
  avg_price :: "rat option"
  avg_area :: "rat option"
  sample_count :: nat

text \<open>Modelled from the spec: the arithmetic mean of a list, absent for the empty list.\<close>

definition mean :: "rat list \<Rightarrow> rat option" where
  "mean xs = (if xs = [] then None else Some (sum_list xs / of_nat (length xs)))"

text \<open>Modelled from the spec: the aggregator computes the statistics of the records it is given and filters nothing itself.\<close>

definition aggregator :: "transaction_record list \<Rightarrow> stats" where
  "aggregator xs =
     \<lparr>avg_price = mean (map (\<lambda>r. of_int (price_of r)) xs),
      avg_area = mean (map exclusive_area xs),
      sample_count = length xs\<rparr>"

text \<open>Modelled from the spec: the sample set of an aggregation, the valid records of the
  apartment in the window, read through the index by apartment.\<close>

definition samples ::
  "(int \<Rightarrow> nat \<Rightarrow> int) \<Rightarrow> engine \<Rightarrow> int \<Rightarrow> int \<Rightarrow> nat \<Rightarrow> transaction_record list" where
  "samples months_before st a window_end n =
     filter (\<lambda>r. is_valid r \<and> months_before window_end n \<le> contract_date r
                 \<and> contract_date r \<le> window_end)
       (candidates (ByApartment a) st)"

text \<open>Modelled from the spec: aggregate applies the aggregator to the sample set of the window.\<close>

definition aggregate :: "(int \<Rightarrow> nat \<Rightarrow> int) \<Rightarrow> engine \<Rightarrow> int \<Rightarrow> int \<Rightarrow> nat \<Rightarrow> stats" where
  "aggregate months_before st a window_end n = aggregator (samples months_before st a window_end n)"

subsection \<open>Consistency of the indexes with the base store\<close>

text \<open>
  The transaction ids of the base store are pairwise distinct, each transaction index holds
  exactly one entry for every valid record it is keyed on, and the region and transit
  indexes hold the entries of the dimension rows their predicates accept.
\<close>

definition engine_inv :: "engine \<Rightarrow> bool" where
  "engine_inv st \<longleftrightarrow>
     distinct (map trans_id (store st))
     \<and> (\<forall>a. mset (by_apt st a) =
             mset (map entry (filter (\<lambda>r. is_valid r \<and> apt_id r = a) (store st))))
     \<and> mset (by_date st) = mset (map entry (filter is_valid (store st)))
     \<and> by_region st = region_index (apartments st)
     \<and> by_transit st = transit_index (details st)"

section \<open>Example rows\<close>

definition sale_example :: transaction_record where
  "sale_example = \<lparr>trans_id = 1, apt_id = 7, contract_date = 20000, exclusive_area = 84,
     floor_no = 3, building_num = None, is_deleted = None, remarks = None,
     variant = Sale 500 False\<rparr>"

text \<open>A detail row with a NULL soft-delete flag and a transit text of 5 to 10 minutes.\<close>

definition detail_example :: apart_detail where
  "detail_example = \<lparr>apt_detail_id = 1, detail_apt_id = 7, total_household_cnt = 300,
     subway_time = Some (''5~10'' @ hangul_bun @ hangul_inae), education_facility = None,
     detail_is_deleted = None\<rparr>"

text \<open>One apartment, in region 11.\<close>

definition example_apartments :: "apartment list" where
  "example_apartments =
     [\<lparr>apartment_id = 7, region_id = 11, apt_name = ''A'', kapt_code = ''K7'',
       apartment_is_deleted = Some False\<rparr>]"

text \<open>Four transactions: two valid sales of apartment 7, a sale that is cancelled later, and a rent of apartment 8.\<close>

definition tx1 :: transaction_record where
  "tx1 = sale_example"

definition tx2 :: transaction_record where
  "tx2 = sale_example\<lparr>trans_id := 2, contract_date := 20010, variant := Sale 700 False\<rparr>"

definition tx3 :: transaction_record where
  "tx3 = sale_example\<lparr>trans_id := 3, contract_date := 20005, variant := Sale 900 False\<rparr>"

definition tx4 :: transaction_record where
  "tx4 = sale_example\<lparr>trans_id := 4, apt_id := 8, contract_date := 20010,
           variant := Rent 300 0\<rparr>"

text \<open>The writes that produce the example state.\<close>

definition example_ops :: "operation list" where
  "example_ops = [Insert tx1, Insert tx2, Insert tx3, Insert tx4, Cancel 3]"

definition example_engine :: engine where
  "example_engine = run example_ops (init_engine example_apartments [detail_example])"

text \<open>The filter specification that supplies no predicate.\<close>

definition no_filter :: filter_spec where
  "no_filter =
     \<lparr>f_region_id = None, f_apt_id = None, f_date_range = None, f_price_range = None,
      f_area_range = None, f_max_transit_minutes = None, f_min_unit_count = None,
      f_education = False, f_sort = None\<rparr>"

text \<open>A window start that counts thirty days per month.\<close>

definition thirty_day_months :: "int \<Rightarrow> nat \<Rightarrow> int" where
  "thirty_day_months d n = d - 30 * int n"











section \<open>Properties of the distance normalizer\<close>

lemma maximal_digit_run_Nil: "\<not> maximal_digit_run [] r"
  by (simp add: maximal_digit_run_def)

lemma maximal_digit_run_nondigit:
  assumes "\<not> is_digit c"
  shows "maximal_digit_run (c # cs) r \<longleftrightarrow> maximal_digit_run cs r"
proof
  assume "maximal_digit_run (c # cs) r"
  then obtain pre post where eq: "c # cs = pre @ r @ post" and ne: "r \<noteq> []"
    and dig: "list_all is_digit r"
    and l: "pre = [] \<or> \<not> is_digit (last pre)" and h: "post = [] \<or> \<not> is_digit (hd post)"
    unfolding maximal_digit_run_def by blast
  have "pre \<noteq> []"
  proof
    assume "pre = []"
    with eq ne have "hd r = c" by (cases r) auto
    with ne dig assms show False by (cases r) auto
  qed
  then obtain pre' where pre: "pre = c # pre'" using eq by (cases pre) auto
  with eq have "cs = pre' @ r @ post" by simp
  moreover from l pre have "pre' = [] \<or> \<not> is_digit (last pre')" by (auto split: if_splits)
  ultimately show "maximal_digit_run cs r"
    unfolding maximal_digit_run_def using ne dig h by blast
next
  assume "maximal_digit_run cs r"
  then obtain pre post where eq: "cs = pre @ r @ post" and ne: "r \<noteq> []"
    and dig: "list_all is_digit r"
    and l: "pre = [] \<or> \<not> is_digit (last pre)" and h: "post = [] \<or> \<not> is_digit (hd post)"
    unfolding maximal_digit_run_def by blast
  from eq have "c # cs = (c # pre) @ r @ post" by simp
  moreover from l assms have "\<not> is_digit (last (c # pre))" by auto
  ultimately show "maximal_digit_run (c # cs) r"
    unfolding maximal_digit_run_def using ne dig h by blast
qed

lemma takeWhile_block:
  assumes "list_all P xs" and "ys = [] \<or> \<not> P (hd ys)"
  shows "takeWhile P (xs @ ys) = xs"
proof -
  from assms(2) have "takeWhile P ys = []" by (cases ys) auto
  with assms(1) show ?thesis by (simp add: list_all_iff)
qed

lemma last_dropWhile_keep:
  assumes "dropWhile P xs \<noteq> []"
  shows "last (dropWhile P xs) = last xs"
proof -
  have "xs = takeWhile P xs @ dropWhile P xs" by simp
  then have "last xs = last (takeWhile P xs @ dropWhile P xs)" by simp
  also have "\<dots> = last (dropWhile P xs)" using assms by (simp only: last_append if_False)
  finally show ?thesis by simp
qed

lemma maximal_digit_run_digit:
  assumes "is_digit c"
  shows "maximal_digit_run (c # cs) r \<longleftrightarrow>
           r = c # takeWhile is_digit cs \<or> maximal_digit_run (dropWhile is_digit cs) r"
proof
  assume "maximal_digit_run (c # cs) r"
  then obtain pre post where eq: "c # cs = pre @ r @ post" and ne: "r \<noteq> []"
    and dig: "list_all is_digit r"
    and l: "pre = [] \<or> \<not> is_digit (last pre)" and h: "post = [] \<or> \<not> is_digit (hd post)"
    unfolding maximal_digit_run_def by blast
  show "r = c # takeWhile is_digit cs \<or> maximal_digit_run (dropWhile is_digit cs) r"
  proof (cases "pre = []")
    case True
    with eq ne obtain r' where r: "r = c # r'" and cs: "cs = r' @ post" by (cases r) auto
    from dig r have "list_all is_digit r'" by simp
    with h cs have "takeWhile is_digit cs = r'" by (simp add: takeWhile_block)
    with r show ?thesis by simp
  next
    case False
    with eq obtain pre' where pre: "pre = c # pre'" by (cases pre) auto
    with eq have cs: "cs = pre' @ r @ post" by simp
    from False l have nl: "\<not> is_digit (last pre)" by simp
    with pre assms have pre'_ne: "pre' \<noteq> []" by auto
    with nl pre have nl': "\<not> is_digit (last pre')" by simp
    from pre'_ne have "last pre' \<in> set pre'" by simp
    then have dw: "dropWhile is_digit (pre' @ r @ post) = dropWhile is_digit pre' @ r @ post"
      using nl' by (rule dropWhile_append1)
    from \<open>last pre' \<in> set pre'\<close> nl' have dne: "dropWhile is_digit pre' \<noteq> []"
      by (auto simp: dropWhile_eq_Nil_conv)
    then have "last (dropWhile is_digit pre') = last pre'" by (rule last_dropWhile_keep)
    with nl' have "\<not> is_digit (last (dropWhile is_digit pre'))" by simp
    with dw cs ne dig h have "maximal_digit_run (dropWhile is_digit cs) r"
      unfolding maximal_digit_run_def by blast
    then show ?thesis ..
  qed
next
  assume "r = c # takeWhile is_digit cs \<or> maximal_digit_run (dropWhile is_digit cs) r"
  then show "maximal_digit_run (c # cs) r"
  proof
    assume r: "r = c # takeWhile is_digit cs"
    have "c # cs = [] @ r @ dropWhile is_digit cs" using r by simp
    moreover have "list_all is_digit r" using r assms
      by (auto simp: list_all_iff dest: set_takeWhileD)
    moreover have "dropWhile is_digit cs = [] \<or> \<not> is_digit (hd (dropWhile is_digit cs))"
      using hd_dropWhile [of is_digit cs] by blast
    ultimately show ?thesis unfolding maximal_digit_run_def using r by blast
  next
    assume "maximal_digit_run (dropWhile is_digit cs) r"
    then obtain p q where eq: "dropWhile is_digit cs = p @ r @ q" and ne: "r \<noteq> []"
      and dig: "list_all is_digit r"
      and l: "p = [] \<or> \<not> is_digit (last p)" and h: "q = [] \<or> \<not> is_digit (hd q)"
      unfolding maximal_digit_run_def by blast
    have pne: "p \<noteq> []"
    proof
      assume "p = []"
      with eq ne have "hd (dropWhile is_digit cs) = hd r" by simp
      moreover from ne dig have "is_digit (hd r)" by (cases r) auto
      moreover from eq ne have "dropWhile is_digit cs \<noteq> []" by simp
      ultimately show False using hd_dropWhile [of is_digit cs] by simp
    qed
    have "c # cs = c # takeWhile is_digit cs @ dropWhile is_digit cs" by simp
    also have "\<dots> = (c # takeWhile is_digit cs @ p) @ r @ q" using eq by simp
    finally have "c # cs = (c # takeWhile is_digit cs @ p) @ r @ q" .
    moreover from pne l have "\<not> is_digit (last (c # takeWhile is_digit cs @ p))" by simp
    ultimately show ?thesis unfolding maximal_digit_run_def using ne dig h by blast
  qed
qed

lemma set_regexp_matches_digits:
  "set (regexp_matches_digits s) = {r. maximal_digit_run s r}"
proof (induction s rule: regexp_matches_digits.induct)
  case 1
  show ?case by (simp add: maximal_digit_run_Nil)
next
  case (2 c cs)
  show ?case
  proof (cases "is_digit c")
    case True
    with 2 show ?thesis by (auto simp: maximal_digit_run_digit)
  next
    case False
    with 2 show ?thesis by (auto simp: maximal_digit_run_nondigit)
  qed
qed

lemma cast_matches_eq:
  "cast_matches ms =
     (if \<forall>m \<in> set ms. decimal_value m \<le> int4_max then Inr (map decimal_value ms)
      else Inl Numeric_Value_Out_Of_Range)"
  by (induction ms) (simp_all add: cast_integer_def Let_def)

lemma foreach_max_step: "foreach_max (n # nums) m = foreach_max nums (max m n)"
  by (simp add: max_def)

lemma foreach_max_Max: "foreach_max nums m = Max (insert m (set nums))"
proof (induction nums arbitrary: m)
  case Nil
  show ?case by simp
next
  case (Cons n nums)
  have "foreach_max (n # nums) m = Max (insert (max m n) (set nums))"
    using Cons [of "max m n"] by (simp only: foreach_max_step)
  also have "\<dots> = Max (insert m (insert n (set nums)))"
    by (cases "set nums = {}") (simp_all add: max.assoc)
  finally show ?case by simp
qed

lemma run_values_eq: "run_values s = set (map decimal_value (regexp_matches_digits s))"
  by (auto simp: run_values_def set_regexp_matches_digits)

lemma regexp_matches_digits_Nil_iff:
  "regexp_matches_digits s = [] \<longleftrightarrow> (\<forall>c \<in> set s. \<not> is_digit c)"
  by (induction s rule: regexp_matches_digits.induct) auto

lemma decimal_value_nonneg_aux:
  "list_all is_digit ds \<Longrightarrow> 0 \<le> a \<Longrightarrow> 0 \<le> foldl (\<lambda>acc c. acc * 10 + digit_value c) a ds"
proof (induction ds arbitrary: a)
  case Nil
  then show ?case by simp
next
  case (Cons d ds)
  from Cons.prems have "0 \<le> digit_value d"
    by (simp add: is_digit_def digit_value_def Let_def)
  with Cons.prems have "0 \<le> a * 10 + digit_value d" by simp
  with Cons show ?case by simp
qed

lemma decimal_value_nonneg: "list_all is_digit ds \<Longrightarrow> 0 \<le> decimal_value ds"
  by (simp add: decimal_value_def decimal_value_nonneg_aux)

lemma maximal_digit_run_digits: "maximal_digit_run s r \<Longrightarrow> list_all is_digit r"
  by (auto simp: maximal_digit_run_def)

lemma parse_Some_eq:
  "parse_subway_time_max_minutes (Some s) =
     (if \<exists>v \<in> run_values s. int4_max < v then Inl Numeric_Value_Out_Of_Range
      else if run_values s = {} then Inr None
      else Inr (Some (Max (run_values s))))"
proof (cases "regexp_matches_digits s")
  case Nil
  then have "run_values s = {}" by (simp add: run_values_eq)
  with Nil show ?thesis
    by (simp add: parse_subway_time_max_minutes_def cast_matches_eq)
next
  case (Cons m ms)
  then have rv: "run_values s = insert (decimal_value m) (set (map decimal_value ms))"
    by (simp add: run_values_eq)
  from Cons have sne: "s \<noteq> []" by auto
  show ?thesis
  proof (cases "\<exists>v \<in> run_values s. int4_max < v")
    case True
    then have "\<not> (\<forall>x \<in> set (m # ms). decimal_value x \<le> int4_max)"
      unfolding rv by (auto simp: not_le)
    with True Cons sne show ?thesis
      by (simp add: parse_subway_time_max_minutes_def cast_matches_eq del: set_simps)
  next
    case False
    then have ok: "\<forall>x \<in> set (m # ms). decimal_value x \<le> int4_max"
      unfolding rv by (auto simp: not_less)
    have "foreach_max (map decimal_value (m # ms)) (decimal_value m) = Max (run_values s)"
      unfolding rv foreach_max_Max by simp
    with False ok Cons sne rv show ?thesis
      by (simp add: parse_subway_time_max_minutes_def cast_matches_eq del: set_simps foreach_max.simps)
  qed
qed

lemmas parse_eval = parse_subway_time_max_minutes_def is_digit_def cast_integer_def
  decimal_value_def digit_value_def int4_max_def hangul_bun_def hangul_inae_def
  hangul_yeoksegwon_def


section \<open>Claims about the distance normalizer\<close>

text \<open>
  Claim C1 (as amended). A NULL text gives NULL. For every text whose maximal digit runs all
  denote values of at most 2147483647, the function returns the maximum of the values of
  the maximal runs of decimal digits of the text, and NULL when there is no such run, which
  is the case exactly when the text contains no digit (the empty text included). The
  documented examples evaluate to 10, 15, NULL and NULL.
\<close>

theorem parse_max_of_digit_runs:
  "parse_subway_time_max_minutes None = Inr None
   \<and> ((\<forall>v \<in> run_values s. v \<le> int4_max) \<longrightarrow>
        parse_subway_time_max_minutes (Some s) =
          Inr (if run_values s = {} then None else Some (Max (run_values s))))
   \<and> (run_values s = {} \<longleftrightarrow> (\<forall>c \<in> set s. \<not> is_digit c))
   \<and> parse_subway_time_max_minutes (Some (''5~10'' @ hangul_bun @ hangul_inae)) = Inr (Some 10)
   \<and> parse_subway_time_max_minutes (Some (''15'' @ hangul_bun @ hangul_inae)) = Inr (Some 15)
   \<and> parse_subway_time_max_minutes (Some []) = Inr None
   \<and> parse_subway_time_max_minutes (Some hangul_yeoksegwon) = Inr None"
proof (intro conjI impI)
  show "parse_subway_time_max_minutes None = Inr None"
    by (simp add: parse_subway_time_max_minutes_def)
  show "parse_subway_time_max_minutes (Some s) =
          Inr (if run_values s = {} then None else Some (Max (run_values s)))"
    if "\<forall>v \<in> run_values s. v \<le> int4_max"
    using that by (auto simp: parse_Some_eq not_less [symmetric])
  show "run_values s = {} \<longleftrightarrow> (\<forall>c \<in> set s. \<not> is_digit c)"
    by (simp add: run_values_eq regexp_matches_digits_Nil_iff)
  show "parse_subway_time_max_minutes (Some (''5~10'' @ hangul_bun @ hangul_inae)) = Inr (Some 10)"
    by (simp add: parse_eval)
  show "parse_subway_time_max_minutes (Some (''15'' @ hangul_bun @ hangul_inae)) = Inr (Some 15)"
    by (simp add: parse_eval)
  show "parse_subway_time_max_minutes (Some []) = Inr None"
    by (simp add: parse_eval)
  show "parse_subway_time_max_minutes (Some hangul_yeoksegwon) = Inr None"
    by (simp add: parse_eval)
qed

theorem parse_max_of_digit_runs_witness:
  "run_values ''5~10'' = {5, 10}
   \<and> parse_subway_time_max_minutes (Some ''5~10'') = Inr (Some (Max (run_values ''5~10'')))
   \<and> Max (run_values ''5~10'') = 10"
proof -
  have rv: "run_values ''5~10'' = {5, 10}"
    by (simp add: run_values_eq is_digit_def decimal_value_def digit_value_def)
  have h: "\<forall>v \<in> run_values ''5~10''. v \<le> int4_max"
    by (simp add: rv int4_max_def)
  from parse_max_of_digit_runs [of "''5~10''"] h
  have "parse_subway_time_max_minutes (Some ''5~10'') =
          Inr (if run_values ''5~10'' = {} then None else Some (Max (run_values ''5~10'')))"
    by blast
  then show ?thesis by (simp add: rv)
qed

text \<open>
  Claim C1 as stated fails where a run of digits exceeds the INTEGER range: the text
  \<open>2147483648\<close> is one maximal run of value 2147483648, and the cast raises an error
  instead of returning it.
\<close>

theorem parse_out_of_range_counterexample:
  "maximal_digit_run ''2147483648'' ''2147483648''
   \<and> decimal_value ''2147483648'' = 2147483648
   \<and> parse_subway_time_max_minutes (Some ''2147483648'') = Inl Numeric_Value_Out_Of_Range"
proof (intro conjI)
  have "''2147483648'' \<in> set (regexp_matches_digits ''2147483648'')"
    by (simp add: is_digit_def)
  then show "maximal_digit_run ''2147483648'' ''2147483648''"
    unfolding set_regexp_matches_digits by simp
  show "decimal_value ''2147483648'' = 2147483648"
    by (simp add: decimal_value_def digit_value_def)
  show "parse_subway_time_max_minutes (Some ''2147483648'') = Inl Numeric_Value_Out_Of_Range"
    by (simp add: parse_eval)
qed

text \<open>
  Claim C9. Whenever the function returns a present value, the input is a non-NULL text and
  the value is the decimal value of one of its maximal digit runs, hence non-negative; a
  sign is not part of a match, so the text of a minus sign, 5 and the minute suffix gives 5.
\<close>

theorem parse_present_is_digit_run:
  "(parse_subway_time_max_minutes t = Inr (Some v) \<longrightarrow>
      (\<exists>s r. t = Some s \<and> maximal_digit_run s r \<and> v = decimal_value r) \<and> 0 \<le> v)
   \<and> parse_subway_time_max_minutes (Some (''-5'' @ hangul_bun)) = Inr (Some 5)"
proof (intro conjI impI)
  assume p: "parse_subway_time_max_minutes t = Inr (Some v)"
  then obtain s where t: "t = Some s"
    by (cases t) (auto simp: parse_subway_time_max_minutes_def)
  from p t have ne: "run_values s \<noteq> {}" and v: "v = Max (run_values s)"
    by (auto simp: parse_Some_eq split: if_splits)
  have "finite (run_values s)" by (simp add: run_values_eq)
  with ne have "Max (run_values s) \<in> run_values s" by (rule Max_in [rotated])
  with v obtain r where r: "maximal_digit_run s r" "v = decimal_value r"
    by (auto simp: run_values_def)
  with t show "\<exists>s r. t = Some s \<and> maximal_digit_run s r \<and> v = decimal_value r" by blast
  from r show "0 \<le> v" by (simp add: decimal_value_nonneg maximal_digit_run_digits)
next
  show "parse_subway_time_max_minutes (Some (''-5'' @ hangul_bun)) = Inr (Some 5)"
    by (simp add: parse_eval)
qed

theorem parse_present_is_digit_run_witness:
  "parse_subway_time_max_minutes (Some ''-5'') = Inr (Some 5)
   \<and> (\<exists>r. maximal_digit_run ''-5'' r \<and> 5 = decimal_value r) \<and> (0::int) \<le> 5"
proof -
  have h: "parse_subway_time_max_minutes (Some ''-5'') = Inr (Some 5)"
    by (simp add: parse_eval)
  with parse_present_is_digit_run [of "Some ''-5''" 5] show ?thesis by simp
qed

section \<open>Properties of the validity predicates and of the partial index\<close>

lemmas sql_defs = sql_and_def sql_or_def sql_eq_def sql_neq_def sql_is_null_def
  sql_is_not_null_def not_deleted_def

lemma not_deleted_iff: "not_deleted d = Some True \<longleftrightarrow> d \<noteq> Some True"
  by (cases d) (auto simp: sql_defs)

lemma sales_filtered_iff:
  "sales_filtered c d rem = Some True \<longleftrightarrow> \<not> c \<and> d \<noteq> Some True \<and> rem \<noteq> Some dummy_marker"
  by (cases d; cases rem) (auto simp: sales_filtered_def sql_defs)

lemma rents_filtered_iff:
  "rents_filtered d rem = Some True \<longleftrightarrow> d \<noteq> Some True \<and> rem \<noteq> Some dummy_marker"
  by (cases d; cases rem) (auto simp: rents_filtered_def sql_defs)

lemma is_valid_iff:
  "is_valid r \<longleftrightarrow>
     is_deleted r \<noteq> Some True \<and> is_cancelled_of r \<noteq> Some True \<and> remarks r \<noteq> Some dummy_marker"
  by (cases "variant r")
     (auto simp: is_valid_def is_cancelled_of_def sales_filtered_iff rents_filtered_iff)

lemma idx_subway_True_iff:
  "idx_apart_details_subway_time_parsed row = Inr True \<longleftrightarrow>
     detail_is_deleted row = Some False \<and> subway_time row \<noteq> None \<and> subway_time row \<noteq> Some []
     \<and> (\<exists>v. parse_subway_time_max_minutes (subway_time row) = Inr (Some v))"
  by (cases "detail_is_deleted row"; cases "subway_time row")
     (auto simp: idx_apart_details_subway_time_parsed_def sql_defs split: sum.splits)


section \<open>Claims about validity and the transit-distance index\<close>

text \<open>
  Claim C2. A record is invalid if and only if its soft-delete flag is true, or it is a sale
  whose cancellation flag is true, or its remarks equal the dummy marker. A NULL soft-delete
  flag is treated as false: replacing it by false does not change validity. The cancellation
  flag is absent exactly in a rent, where it excludes nothing.
\<close>

theorem is_valid_rule:
  "(\<not> is_valid r) =
     (is_deleted r = Some True \<or> is_cancelled_of r = Some True \<or> remarks r = Some dummy_marker)
   \<and> is_valid (r\<lparr>is_deleted := None\<rparr>) = is_valid (r\<lparr>is_deleted := Some False\<rparr>)
   \<and> (is_cancelled_of r = None) = (\<exists>d m. variant r = Rent d m)"
  by (cases "variant r") (auto simp: is_valid_iff is_cancelled_of_def)

theorem is_valid_rule_witness:
  "is_valid sale_example
   \<and> \<not> is_valid (sale_example\<lparr>variant := Sale 500 True\<rparr>)
   \<and> \<not> is_valid (sale_example\<lparr>is_deleted := Some True\<rparr>)
   \<and> \<not> is_valid (sale_example\<lparr>remarks := Some dummy_marker\<rparr>)
   \<and> is_valid (sale_example\<lparr>variant := Rent 300 0\<rparr>)"
  using is_valid_rule [of sale_example]
    is_valid_rule [of "sale_example\<lparr>variant := Sale 500 True\<rparr>"]
    is_valid_rule [of "sale_example\<lparr>is_deleted := Some True\<rparr>"]
    is_valid_rule [of "sale_example\<lparr>remarks := Some dummy_marker\<rparr>"]
    is_valid_rule [of "sale_example\<lparr>variant := Rent 300 0\<rparr>"]
  by (simp add: sale_example_def is_cancelled_of_def)

text \<open>
  Claim C10. A row of apartment details has an entry in the transit-distance partial index
  exactly when its soft-delete flag is explicitly false, its transit text is neither NULL nor
  empty, and the parser returns a present value for it. A row whose soft-delete flag is NULL
  has no entry, although the soft-delete clause of the validity predicates accepts a NULL flag.
\<close>

theorem subway_index_covers:
  "(idx_apart_details_subway_time_parsed row = Inr True \<longleftrightarrow>
      detail_is_deleted row = Some False \<and> subway_time row \<noteq> None \<and> subway_time row \<noteq> Some []
      \<and> (\<exists>v. parse_subway_time_max_minutes (subway_time row) = Inr (Some v)))
   \<and> (detail_is_deleted row = None \<longrightarrow>
        idx_apart_details_subway_time_parsed row = Inr False
        \<and> not_deleted (detail_is_deleted row) = Some True)"
proof (intro conjI impI)
  show "idx_apart_details_subway_time_parsed row = Inr True \<longleftrightarrow>
      detail_is_deleted row = Some False \<and> subway_time row \<noteq> None \<and> subway_time row \<noteq> Some []
      \<and> (\<exists>v. parse_subway_time_max_minutes (subway_time row) = Inr (Some v))"
    by (rule idx_subway_True_iff)
  show "idx_apart_details_subway_time_parsed row = Inr False" if "detail_is_deleted row = None"
    using that by (simp add: idx_apart_details_subway_time_parsed_def sql_defs)
  show "not_deleted (detail_is_deleted row) = Some True" if "detail_is_deleted row = None"
    using that by (simp add: not_deleted_iff)
qed

theorem subway_index_covers_witness:
  "detail_is_deleted detail_example = None
   \<and> idx_apart_details_subway_time_parsed detail_example = Inr False
   \<and> not_deleted (detail_is_deleted detail_example) = Some True
   \<and> idx_apart_details_subway_time_parsed (detail_example\<lparr>detail_is_deleted := Some False\<rparr>)
       = Inr True"
proof -
  have h: "detail_is_deleted detail_example = None" by (simp add: detail_example_def)
  have p: "parse_subway_time_max_minutes
             (subway_time (detail_example\<lparr>detail_is_deleted := Some False\<rparr>)) = Inr (Some 10)"
    by (simp add: detail_example_def parse_eval)
  from subway_index_covers [of detail_example] h
  have a: "idx_apart_details_subway_time_parsed detail_example = Inr False
           \<and> not_deleted (detail_is_deleted detail_example) = Some True"
    by blast
  from subway_index_covers [of "detail_example\<lparr>detail_is_deleted := Some False\<rparr>"] p
  have "idx_apart_details_subway_time_parsed (detail_example\<lparr>detail_is_deleted := Some False\<rparr>)
          = Inr True"
    by (simp add: detail_example_def hangul_bun_def)
  with a h show ?thesis by simp
qed

section \<open>The statements of the body compute the function and leave the session alone\<close>






section \<open>Claim about determinism and side effects\<close>



section \<open>The indexes stay consistent with the base store\<close>

lemma engine_inv_init: "engine_inv (init_engine aps dts)"
  by (simp add: engine_inv_def init_engine_def)

lemma mset_index_insert: "mset (index_insert e es) = add_mset e (mset es)"
  by (simp add: index_insert_def)

lemma mset_index_remove:
  assumes "mset es = mset (map entry xs)"
  shows "mset (index_remove i es) = mset (map entry (filter (\<lambda>r. trans_id r \<noteq> i) xs))"
proof -
  have "mset (index_remove i es) = filter_mset (\<lambda>e. snd e \<noteq> i) (mset es)"
    by (simp add: index_remove_def)
  also have "\<dots> = mset (filter (\<lambda>e. snd e \<noteq> i) (map entry xs))"
    by (simp add: assms)
  also have "filter (\<lambda>e. snd e \<noteq> i) (map entry xs) = map entry (filter (\<lambda>r. trans_id r \<noteq> i) xs)"
    by (induction xs) (simp_all add: entry_def)
  finally show ?thesis .
qed

lemma engine_inv_insert:
  assumes "engine_inv st"
  shows "engine_inv (insert_tx r st)"
proof (cases "trans_id r \<in> set (map trans_id (store st))")
  case True
  with assms show ?thesis by (simp add: insert_tx_def)
next
  case False
  show ?thesis
  proof (cases "is_valid r")
    case True
    with False assms show ?thesis
      by (auto simp: insert_tx_def engine_inv_def mset_index_insert)
  next
    case False
    with \<open>trans_id r \<notin> set (map trans_id (store st))\<close> assms show ?thesis
      by (auto simp: insert_tx_def engine_inv_def)
  qed
qed

lemma filter_map_flagged:
  assumes "\<And>r. r \<in> set xs \<Longrightarrow> trans_id r = i \<Longrightarrow> \<not> P (g r)"
  shows "map entry (filter P (map (\<lambda>r. if trans_id r = i then g r else r) xs)) =
           map entry (filter (\<lambda>r. trans_id r \<noteq> i) (filter P xs))"
  using assms by (induction xs) auto

lemma trans_id_mark_deleted [simp]: "trans_id (mark_deleted r) = trans_id r"
  by (simp add: mark_deleted_def)

lemma trans_id_mark_cancelled [simp]: "trans_id (mark_cancelled r) = trans_id r"
  by (simp add: mark_cancelled_def split: variant.splits)

lemma map_trans_id_flagged:
  assumes "\<And>r. trans_id (g r) = trans_id r"
  shows "map trans_id (map (\<lambda>r. if trans_id r = i then g r else r) xs) = map trans_id xs"
  using assms by (induction xs) auto

lemma not_valid_mark_deleted: "\<not> is_valid (mark_deleted r)"
  by (simp add: is_valid_iff mark_deleted_def)

lemma not_valid_mark_cancelled: "variant r = Sale p c \<Longrightarrow> \<not> is_valid (mark_cancelled r)"
  by (simp add: is_valid_iff mark_cancelled_def is_cancelled_of_def)

lemma engine_inv_flagged:
  assumes inv: "engine_inv st"
    and bad: "\<And>r. r \<in> set (store st) \<Longrightarrow> trans_id r = i \<Longrightarrow> \<not> is_valid (g r)"
    and bad2: "\<And>r a. r \<in> set (store st) \<Longrightarrow> trans_id r = i \<Longrightarrow> \<not> (is_valid (g r) \<and> apt_id (g r) = a)"
    and tid: "\<And>r. trans_id (g r) = trans_id r"
  shows "engine_inv
           (st\<lparr>store := map (\<lambda>r. if trans_id r = i then g r else r) (store st),
               by_apt := (\<lambda>a. index_remove i (by_apt st a)),
               by_date := index_remove i (by_date st)\<rparr>)"
proof -
  let ?xs = "store st"
  let ?ys = "map (\<lambda>r. if trans_id r = i then g r else r) ?xs"
  have d: "distinct (map trans_id ?ys)"
    using inv tid by (simp add: map_trans_id_flagged engine_inv_def del: map_map)
  have a: "mset (index_remove i (by_apt st a)) =
             mset (map entry (filter (\<lambda>r. is_valid r \<and> apt_id r = a) ?ys))" for a
  proof -
    from inv have "mset (by_apt st a) =
        mset (map entry (filter (\<lambda>r. is_valid r \<and> apt_id r = a) ?xs))"
      by (simp add: engine_inv_def)
    then have "mset (index_remove i (by_apt st a)) =
        mset (map entry (filter (\<lambda>r. trans_id r \<noteq> i)
               (filter (\<lambda>r. is_valid r \<and> apt_id r = a) ?xs)))"
      by (rule mset_index_remove)
    also have "map entry (filter (\<lambda>r. trans_id r \<noteq> i)
               (filter (\<lambda>r. is_valid r \<and> apt_id r = a) ?xs)) =
        map entry (filter (\<lambda>r. is_valid r \<and> apt_id r = a) ?ys)"
      using bad2 by (intro filter_map_flagged [symmetric]) blast
    finally show ?thesis .
  qed
  have b: "mset (index_remove i (by_date st)) = mset (map entry (filter is_valid ?ys))"
  proof -
    from inv have "mset (by_date st) = mset (map entry (filter is_valid ?xs))"
      by (simp add: engine_inv_def)
    then have "mset (index_remove i (by_date st)) =
        mset (map entry (filter (\<lambda>r. trans_id r \<noteq> i) (filter is_valid ?xs)))"
      by (rule mset_index_remove)
    also have "map entry (filter (\<lambda>r. trans_id r \<noteq> i) (filter is_valid ?xs)) =
        map entry (filter is_valid ?ys)"
      using bad by (intro filter_map_flagged [symmetric]) blast
    finally show ?thesis .
  qed
  from inv have c: "by_region st = region_index (apartments st)"
    "by_transit st = transit_index (details st)"
    by (simp_all add: engine_inv_def)
  from d a b c show ?thesis by (simp add: engine_inv_def)
qed

lemma engine_inv_soft_delete:
  assumes "engine_inv st"
  shows "engine_inv (soft_delete i st)"
  unfolding soft_delete_def
  by (rule engine_inv_flagged [OF assms]) (simp_all add: not_valid_mark_deleted)

lemma find_trans_id_unique:
  assumes "distinct (map trans_id xs)" and "find (\<lambda>r. trans_id r = i) xs = Some r"
    and "r' \<in> set xs" and "trans_id r' = i"
  shows "r' = r"
proof -
  from assms(2) have "r \<in> set xs" and "trans_id r = i"
    by (auto simp: find_Some_iff)
  moreover from assms(1) have "inj_on trans_id (set xs)" by (simp add: distinct_map)
  ultimately show ?thesis using assms(3,4) by (auto dest: inj_onD)
qed

lemma find_trans_id_member:
  assumes "distinct (map trans_id xs)" and "r \<in> set xs"
  shows "find (\<lambda>x. trans_id x = trans_id r) xs = Some r"
proof -
  from assms(2) obtain y where y: "find (\<lambda>x. trans_id x = trans_id r) xs = Some y"
    by (cases "find (\<lambda>x. trans_id x = trans_id r) xs") (auto simp: find_None_iff)
  have "r = y" using find_trans_id_unique [OF assms(1) y assms(2)] by simp
  with y show ?thesis by simp
qed

lemma engine_inv_cancel:
  assumes "engine_inv st"
  shows "engine_inv (cancel i st)"
proof (cases "fetch st i")
  case None
  with assms show ?thesis by (simp add: cancel_def)
next
  case (Some r)
  show ?thesis
  proof (cases "variant r")
    case (Rent d m)
    with Some assms show ?thesis by (simp add: cancel_def)
  next
    case (Sale p c)
    from assms have d: "distinct (map trans_id (store st))" by (simp add: engine_inv_def)
    have only: "r' = r" if "r' \<in> set (store st)" "trans_id r' = i" for r'
      using d Some that unfolding fetch_def by (rule find_trans_id_unique)
    have "engine_inv
           (st\<lparr>store := map (\<lambda>r. if trans_id r = i then mark_cancelled r else r) (store st),
               by_apt := (\<lambda>a. index_remove i (by_apt st a)),
               by_date := index_remove i (by_date st)\<rparr>)"
      using assms
    proof (rule engine_inv_flagged)
      show "\<not> is_valid (mark_cancelled r')" if "r' \<in> set (store st)" "trans_id r' = i" for r'
        using only [OF that] Sale by (simp add: not_valid_mark_cancelled)
      then show "\<not> (is_valid (mark_cancelled r') \<and> apt_id (mark_cancelled r') = a)"
        if "r' \<in> set (store st)" "trans_id r' = i" for r' a
        using that by blast
    qed simp
    with Some Sale show ?thesis by (simp add: cancel_def)
  qed
qed

lemma engine_inv_rebuild:
  assumes "engine_inv st"
  shows "engine_inv (rebuild_indexes st)"
  using assms by (simp add: engine_inv_def rebuild_indexes_def)

lemma engine_inv_apply_op: "engine_inv st \<Longrightarrow> engine_inv (apply_op x st)"
  by (cases x)
     (simp_all add: engine_inv_insert engine_inv_cancel engine_inv_soft_delete engine_inv_rebuild)

lemma engine_inv_run: "engine_inv st \<Longrightarrow> engine_inv (run xs st)"
  by (induction xs arbitrary: st) (simp_all add: engine_inv_apply_op)

lemma reachable_inv: "reachable st \<Longrightarrow> engine_inv st"
  by (auto simp: reachable_def intro: engine_inv_run engine_inv_init)

lemma reachable_run: "reachable st \<Longrightarrow> reachable (run xs st)"
proof -
  have run_append: "run (ys @ xs) s = run xs (run ys s)" for ys s
    by (induction ys arbitrary: s) simp_all
  assume "reachable st"
  then obtain aps dts ops where "st = run ops (init_engine aps dts)"
    by (auto simp: reachable_def)
  then have "run xs st = run (ops @ xs) (init_engine aps dts)" by (simp add: run_append)
  then show ?thesis unfolding reachable_def by blast
qed

section \<open>The search result does not depend on the access path\<close>

lemma map_the_filter_Some:
  assumes "\<And>r. r \<in> set V \<Longrightarrow> g (h r) = Some r"
  shows "map (the \<circ> g) (filter (\<lambda>e. g e \<noteq> None) (map h V)) = V"
  using assms by (induction V) auto

lemma mset_map_filter_fetch:
  assumes d: "distinct (map trans_id (store st))"
    and es: "mset es = mset (map entry (filter P (store st)))"
  shows "mset (List.map_filter (\<lambda>e. fetch st (snd e)) es) = mset (filter P (store st))"
proof -
  let ?g = "\<lambda>e. fetch st (snd e)"
  let ?V = "filter P (store st)"
  have f: "fetch st (snd (entry r)) = Some r" if "r \<in> set ?V" for r
    using that d by (simp add: fetch_def entry_def find_trans_id_member)
  have "mset (List.map_filter ?g es) = image_mset (the \<circ> ?g) (filter_mset (\<lambda>e. ?g e \<noteq> None) (mset es))"
    by (simp add: List.map_filter_def)
  also have "\<dots> = mset (map (the \<circ> ?g) (filter (\<lambda>e. ?g e \<noteq> None) (map entry ?V)))"
    by (simp add: es)
  also have "map (the \<circ> ?g) (filter (\<lambda>e. ?g e \<noteq> None) (map entry ?V)) = ?V"
    using f by (rule map_the_filter_Some)
  finally show ?thesis .
qed

lemma mset_candidates_by_apt:
  assumes "engine_inv st"
  shows "mset (candidates (ByApartment a) st) =
           mset (filter (\<lambda>r. is_valid r \<and> apt_id r = a) (store st))"
  using assms unfolding candidates_def engine_inv_def
  by (simp add: mset_map_filter_fetch)

lemma mset_candidates_by_date:
  assumes "engine_inv st"
  shows "mset (candidates ByDate st) = mset (filter is_valid (store st))"
  using assms unfolding candidates_def engine_inv_def
  by (simp add: mset_map_filter_fetch)

lemma mset_filter_of_mset: "mset xs = mset ys \<Longrightarrow> mset (filter P xs) = mset (filter P ys)"
  by (metis mset_filter)

lemma filter_filter_absorb: "(\<And>x. P x \<Longrightarrow> Q x) \<Longrightarrow> filter P (filter Q xs) = filter P xs"
  by (induction xs) auto

lemma mset_filter_disjoint:
  assumes "\<And>x. \<not> (Q x \<and> R x)"
  shows "mset (filter Q xs) + mset (filter R xs) = mset (filter (\<lambda>x. Q x \<or> R x) xs)"
  using assms by (induction xs) auto

lemma mset_concat_by_key:
  assumes F: "\<And>a. mset (F a) = mset (filter (\<lambda>r. P r \<and> k r = a) xs)"
    and d: "distinct bs"
  shows "mset (concat (map F bs)) = mset (filter (\<lambda>r. P r \<and> k r \<in> set bs) xs)"
  using d
proof (induction bs)
  case Nil
  show ?case by simp
next
  case (Cons b bs)
  then have b: "b \<notin> set bs" and IH: "mset (concat (map F bs)) =
      mset (filter (\<lambda>r. P r \<and> k r \<in> set bs) xs)"
    by simp_all
  have "mset (concat (map F (b # bs))) =
      mset (filter (\<lambda>r. P r \<and> k r = b) xs) + mset (filter (\<lambda>r. P r \<and> k r \<in> set bs) xs)"
    by (simp add: F IH)
  also have "\<dots> = mset (filter (\<lambda>r. (P r \<and> k r = b) \<or> (P r \<and> k r \<in> set bs)) xs)"
    using b by (intro mset_filter_disjoint) auto
  also have "filter (\<lambda>r. (P r \<and> k r = b) \<or> (P r \<and> k r \<in> set bs)) xs =
      filter (\<lambda>r. P r \<and> k r \<in> set (b # bs)) xs"
    by (rule filter_cong) auto
  finally show ?case .
qed

lemma mset_records_of_apartments:
  assumes "engine_inv st"
  shows "mset (records_of_apartments st as) =
           mset (filter (\<lambda>r. is_valid r \<and> apt_id r \<in> set as) (store st))"
proof -
  have "mset (concat (map (\<lambda>a. candidates (ByApartment a) st) (remdups as))) =
      mset (filter (\<lambda>r. is_valid r \<and> apt_id r \<in> set (remdups as)) (store st))"
    by (rule mset_concat_by_key) (simp_all add: mset_candidates_by_apt [OF assms])
  then show ?thesis by (simp add: records_of_apartments_def candidates_def)
qed

lemma mset_candidates_by_region:
  assumes "engine_inv st"
  shows "mset (candidates (ByRegion g) st) =
           mset (filter (\<lambda>r. is_valid r \<and> apt_id r \<in> set (map fst (by_region st g))) (store st))"
  using mset_records_of_apartments [OF assms] by (simp add: candidates_def)

lemma mset_candidates_by_transit:
  assumes "engine_inv st"
  shows "mset (candidates ByTransit st) =
           mset (filter (\<lambda>r. is_valid r \<and> apt_id r \<in> set (by_transit st)) (store st))"
  using mset_records_of_apartments [OF assms] by (simp add: candidates_def)

lemma mset_candidates_filter:
  assumes "engine_inv st"
  shows "\<exists>Q. mset (candidates c st) = mset (filter Q (store st))"
proof (cases c)
  case (ByApartment a)
  then show ?thesis using mset_candidates_by_apt [OF assms] by blast
next
  case ByDate
  then show ?thesis using mset_candidates_by_date [OF assms] by blast
next
  case (ByRegion g)
  then show ?thesis using mset_candidates_by_region [OF assms] by blast
next
  case ByTransit
  then show ?thesis using mset_candidates_by_transit [OF assms] by blast
next
  case Scan
  have "mset (candidates Scan st) = mset (filter (\<lambda>r. True) (store st))"
    by (simp add: candidates_def)
  with Scan show ?thesis by blast
qed

lemma filtered_candidates_in_store:
  assumes "engine_inv st"
  shows "set (filter P (candidates c st)) \<subseteq> set (filter P (store st))"
proof -
  from mset_candidates_filter [OF assms] obtain Q
    where "mset (candidates c st) = mset (filter Q (store st))" by blast
  then have "set (candidates c st) = set (filter Q (store st))" by (rule mset_eq_setD)
  then show ?thesis by auto
qed

lemma foldl_choice_member:
  "foldl (\<lambda>m x. if P x m then x else m) d ds \<in> set (d # ds)"
proof (induction ds arbitrary: d)
  case Nil
  show ?case by simp
next
  case (Cons x ds)
  from Cons [of "if P x d then x else d"] show ?case by auto
qed

lemma detail_of_Some:
  assumes "detail_of st a = Some d"
  shows "d \<in> set (details st) \<and> detail_apt_id d = a"
proof (cases "filter (\<lambda>d. detail_apt_id d = a) (details st)")
  case Nil
  with assms show ?thesis by (simp add: detail_of_def)
next
  case (Cons d0 ds)
  with assms have "d = foldl (\<lambda>m x. if apt_detail_id x < apt_detail_id m then x else m) d0 ds"
    by (simp add: detail_of_def)
  then have "d \<in> set (d0 # ds)"
    using foldl_choice_member [of "\<lambda>x m. apt_detail_id x < apt_detail_id m" d0 ds] by simp
  then have "d \<in> set (filter (\<lambda>d. detail_apt_id d = a) (details st))"
    by (simp add: Cons)
  then show ?thesis by simp
qed

lemma parse_present_text:
  assumes "parse_subway_time_max_minutes t = Inr (Some m)"
  shows "t \<noteq> None \<and> t \<noteq> Some []"
  using assms by (cases t) (auto simp: parse_subway_time_max_minutes_def)

lemma transit_covered:
  assumes inv: "engine_inv st" and cov: "path_covers ByTransit st"
    and tm: "transit_minutes st a = Some m"
  shows "a \<in> set (by_transit st)"
proof -
  from tm obtain d where d: "detail_of st a = Some d"
    and p: "parse_subway_time_max_minutes (subway_time d) = Inr (Some m)"
    by (auto simp: transit_minutes_def split: option.splits sum.splits)
  from d have mem: "d \<in> set (details st)" and a: "detail_apt_id d = a"
    by (simp_all add: detail_of_Some)
  from cov mem p have "detail_is_deleted d = Some False"
    by (auto simp: path_covers_def list_all_iff)
  with p parse_present_text [OF p] have "idx_apart_details_subway_time_parsed d = Inr True"
    by (auto simp: idx_subway_True_iff)
  with mem a have "a \<in> set (transit_index (details st))"
    by (force simp: transit_index_def)
  with inv show ?thesis by (simp add: engine_inv_def)
qed

lemma region_covered:
  assumes inv: "engine_inv st" and cov: "path_covers (ByRegion g) st"
    and ap: "apartment_of st a = Some p" and g: "region_id p = g"
  shows "a \<in> set (map fst (by_region st g))"
proof -
  from ap have mem: "p \<in> set (apartments st)" and a: "apartment_id p = a"
    by (auto simp: apartment_of_def find_Some_iff)
  from cov mem g have "apartment_is_deleted p = Some False"
    by (auto simp: path_covers_def list_all_iff)
  then have "idx_apartments_region_apt_name p"
    by (simp add: idx_apartments_region_apt_name_def sql_defs)
  with mem a g have "a \<in> set (map fst (region_index (apartments st) g))"
    by (force simp: region_index_def)
  with inv show ?thesis by (simp add: engine_inv_def)
qed

lemma mset_filtered_candidates:
  assumes inv: "engine_inv st" and app: "applicable c f" and cov: "path_covers c st"
  shows "mset (filter (\<lambda>r. is_valid r \<and> matches st f r) (candidates c st)) =
           mset (filter (\<lambda>r. is_valid r \<and> matches st f r) (store st))"
proof -
  let ?P = "\<lambda>r. is_valid r \<and> matches st f r"
  have via: "mset (filter ?P (candidates c st)) = mset (filter ?P (store st))"
    if m: "mset (candidates c st) = mset (filter Q (store st))"
      and imp: "\<And>r. ?P r \<Longrightarrow> Q r" for Q
  proof -
    from m have "mset (filter ?P (candidates c st)) = mset (filter ?P (filter Q (store st)))"
      by (rule mset_filter_of_mset)
    also have "filter ?P (filter Q (store st)) = filter ?P (store st)"
      using imp by (rule filter_filter_absorb)
    finally show ?thesis .
  qed
  show ?thesis
  proof (cases c)
    case (ByApartment a)
    with app have fa: "f_apt_id f = Some a" by (simp add: applicable_def)
    show ?thesis
    proof (rule via)
      show "mset (candidates c st) = mset (filter (\<lambda>r. is_valid r \<and> apt_id r = a) (store st))"
        using inv ByApartment by (simp add: mset_candidates_by_apt)
      show "is_valid r \<and> apt_id r = a" if "?P r" for r
        using that fa by (simp add: matches_def apartment_ok_def)
    qed
  next
    case ByDate
    show ?thesis
    proof (rule via)
      show "mset (candidates c st) = mset (filter is_valid (store st))"
        using inv ByDate by (simp add: mset_candidates_by_date)
    qed simp
  next
    case (ByRegion g)
    with app have fg: "f_region_id f = Some g" by (simp add: applicable_def)
    show ?thesis
    proof (rule via)
      show "mset (candidates c st) =
          mset (filter (\<lambda>r. is_valid r \<and> apt_id r \<in> set (map fst (by_region st g))) (store st))"
        using inv ByRegion by (simp add: mset_candidates_by_region)
      show "is_valid r \<and> apt_id r \<in> set (map fst (by_region st g))" if h: "?P r" for r
      proof -
        from h fg obtain p where "apartment_of st (apt_id r) = Some p" "region_id p = g"
          by (auto simp: matches_def region_ok_def split: option.splits)
        with inv cov ByRegion have "apt_id r \<in> set (map fst (by_region st g))"
          by (intro region_covered [where p = p]) simp_all
        with h show ?thesis by simp
      qed
    qed
  next
    case ByTransit
    with app obtain n where fn: "f_max_transit_minutes f = Some n"
      by (auto simp: applicable_def)
    show ?thesis
    proof (rule via)
      show "mset (candidates c st) =
          mset (filter (\<lambda>r. is_valid r \<and> apt_id r \<in> set (by_transit st)) (store st))"
        using inv ByTransit by (simp add: mset_candidates_by_transit)
      show "is_valid r \<and> apt_id r \<in> set (by_transit st)" if h: "?P r" for r
      proof -
        from h fn obtain m where "transit_minutes st (apt_id r) = Some m"
          by (auto simp: matches_def transit_ok_def split: option.splits)
        with inv cov ByTransit have "apt_id r \<in> set (by_transit st)"
          by (intro transit_covered [where m = m]) simp_all
        with h show ?thesis by simp
      qed
    qed
  next
    case Scan
    then show ?thesis by (simp add: candidates_def)
  qed
qed

lemma inj_on_order_key:
  assumes "distinct (map trans_id xs)"
  shows "inj_on order_key (set xs)"
proof (rule inj_onI)
  fix x y assume "x \<in> set xs" "y \<in> set xs" "order_key x = order_key y"
  then have "trans_id x = trans_id y" by (simp add: order_key_def)
  moreover from assms have "inj_on trans_id (set xs)" by (simp add: distinct_map)
  ultimately show "x = y" using \<open>x \<in> set xs\<close> \<open>y \<in> set xs\<close> by (auto dest: inj_onD)
qed

lemma sort_key_order_key_mset:
  assumes m: "mset xs = mset ys" and d: "distinct (map trans_id xs)"
  shows "sort_key order_key xs = sort_key order_key ys"
proof (rule sort_key_inj_key_eq)
  show "mset xs = mset (sort_key order_key ys)" using m by simp
  show "inj_on order_key (set xs)" using d by (rule inj_on_order_key)
  show "sorted (map order_key (sort_key order_key ys))" by (rule sorted_sort_key)
qed

lemma order_results_mset:
  assumes "mset xs = mset ys" and "distinct (map trans_id xs)"
  shows "order_results f xs = order_results f ys"
  using sort_key_order_key_mset [OF assms]
  by (simp add: order_results_def split: option.splits sort_field.splits)

lemma set_order_results [simp]: "set (order_results f xs) = set xs"
  by (simp add: order_results_def split: option.splits sort_field.splits)

lemma mset_order_results [simp]: "mset (order_results f xs) = mset xs"
  by (simp add: order_results_def split: option.splits sort_field.splits)

lemma distinct_trans_id_filter:
  "distinct (map trans_id xs) \<Longrightarrow> distinct (map trans_id (filter P xs))"
  by (simp add: distinct_map_filter)

lemma distinct_trans_id_mset:
  assumes "mset xs = mset ys" and "distinct (map trans_id ys)"
  shows "distinct (map trans_id xs)"
proof -
  from assms(1) have "mset (map trans_id xs) = mset (map trans_id ys)" by simp
  then show ?thesis using assms(2) by (metis mset_eq_imp_distinct_iff)
qed

lemma distinct_filtered_candidates:
  assumes "engine_inv st"
  shows "distinct (map trans_id (filter P (candidates c st)))"
proof -
  from mset_candidates_filter [OF assms] obtain Q
    where "mset (candidates c st) = mset (filter Q (store st))" by blast
  then have "mset (filter P (candidates c st)) = mset (filter P (filter Q (store st)))"
    by (rule mset_filter_of_mset)
  moreover from assms have "distinct (map trans_id (filter P (filter Q (store st))))"
    by (simp add: engine_inv_def distinct_trans_id_filter)
  ultimately show ?thesis by (rule distinct_trans_id_mset)
qed

lemma search_via_index_independent:
  assumes inv: "engine_inv st" and app: "applicable c f" and cov: "path_covers c st"
  shows "fst (search_via c st f) = fst (search_via Scan st f)"
proof (cases "ranges_ok f")
  case False
  then show ?thesis by (simp add: search_via_def)
next
  case True
  let ?P = "\<lambda>r. is_valid r \<and> matches st f r"
  have m: "mset (filter ?P (candidates c st)) = mset (filter ?P (candidates Scan st))"
    using mset_filtered_candidates [OF inv app cov] by (simp add: candidates_def)
  have "distinct (map trans_id (filter ?P (candidates c st)))"
    using inv by (rule distinct_filtered_candidates)
  with m have "order_results f (filter ?P (candidates c st)) =
                 order_results f (filter ?P (candidates Scan st))"
    by (rule order_results_mset)
  with True show ?thesis by (simp add: search_via_def)
qed

lemma max_of_four:
  fixes a d g t :: nat
  assumes "a \<noteq> max (max a d) (max g t)" and "d \<noteq> max (max a d) (max g t)"
    and "g \<noteq> max (max a d) (max g t)"
  shows "t = max (max a d) (max g t)"
  using assms by (simp add: max_def split: if_splits)

lemma applicable_choose_index: "applicable (choose_index f) f"
proof -
  define best where "best = max (max (prefix_by_apt f) (prefix_by_date f))
                   (max (prefix_by_region f) (prefix_by_transit f))"
  have ci: "choose_index f =
     (if best = 0 then Scan
      else if prefix_by_apt f = best
        then (case f_apt_id f of Some a \<Rightarrow> ByApartment a | None \<Rightarrow> Scan)
      else if prefix_by_date f = best then ByDate
      else if prefix_by_region f = best
        then (case f_region_id f of Some g \<Rightarrow> ByRegion g | None \<Rightarrow> Scan)
      else ByTransit)"
    unfolding best_def choose_index_def Let_def by (rule refl)
  have tr: "prefix_by_transit f = best"
    if "prefix_by_apt f \<noteq> best" "prefix_by_date f \<noteq> best" "prefix_by_region f \<noteq> best"
    using that unfolding best_def by (rule max_of_four)
  consider "best = 0"
    | "best \<noteq> 0" "prefix_by_apt f = best"
    | "best \<noteq> 0" "prefix_by_apt f \<noteq> best" "prefix_by_date f = best"
    | "best \<noteq> 0" "prefix_by_apt f \<noteq> best" "prefix_by_date f \<noteq> best"
      "prefix_by_region f = best"
    | "best \<noteq> 0" "prefix_by_apt f \<noteq> best" "prefix_by_date f \<noteq> best"
      "prefix_by_region f \<noteq> best"
    by blast
  then show ?thesis
  proof cases
    case 1
    then show ?thesis by (simp add: ci applicable_def)
  next
    case 2
    then show ?thesis by (simp add: ci applicable_def split: option.splits)
  next
    case 3
    then show ?thesis by (simp add: ci applicable_def)
  next
    case 4
    then show ?thesis by (simp add: ci applicable_def split: option.splits)
  next
    case 5
    then have "prefix_by_transit f = best" by (intro tr)
    with 5(1) have "f_max_transit_minutes f \<noteq> None"
      by (auto simp: prefix_by_transit_def split: if_splits)
    with 5 show ?thesis by (simp add: ci applicable_def)
  qed
qed

lemma fst_search_scan:
  assumes "engine_inv st" and "path_covers (choose_index f) st"
  shows "fst (search st f) =
           (if ranges_ok f
            then Inr (order_results f (filter (\<lambda>r. is_valid r \<and> matches st f r) (store st)))
            else Inl InvalidFilter)"
  unfolding search_def
  using search_via_index_independent [OF assms(1) applicable_choose_index assms(2)]
  by (simp add: search_via_def candidates_def)

lemma search_via_sound:
  assumes "engine_inv st" and "fst (search_via c st f) = Inr out"
  shows "set out \<subseteq> {r \<in> set (store st). is_valid r \<and> matches st f r}"
    and "distinct (map trans_id out)"
proof -
  let ?xs = "filter (\<lambda>r. is_valid r \<and> matches st f r) (candidates c st)"
  from assms(2) have out: "out = order_results f ?xs"
    by (auto simp: search_via_def split: if_splits)
  from filtered_candidates_in_store [OF assms(1), of "\<lambda>r. is_valid r \<and> matches st f r" c]
  show "set out \<subseteq> {r \<in> set (store st). is_valid r \<and> matches st f r}"
    unfolding out by auto
  have "distinct (map trans_id ?xs)" using assms(1) by (rule distinct_filtered_candidates)
  then show "distinct (map trans_id out)"
    unfolding out by (rule distinct_trans_id_mset [rotated]) simp
qed

section \<open>Search results, aggregation samples and mutations\<close>

lemmas example_defs = tx1_def tx2_def tx3_def tx4_def sale_example_def detail_example_def
  example_apartments_def no_filter_def

lemma store_example:
  "store example_engine = [tx1, tx2, mark_cancelled tx3, tx4]"
  by (simp add: example_engine_def example_ops_def init_engine_def insert_tx_def cancel_def
      fetch_def example_defs is_valid_iff is_cancelled_of_def dummy_marker_def)

lemma dims_example:
  "apartments example_engine = example_apartments" "details example_engine = [detail_example]"
  by (simp_all add: example_engine_def example_ops_def init_engine_def insert_tx_def cancel_def
      fetch_def example_defs is_valid_iff is_cancelled_of_def dummy_marker_def)

lemma reachable_example: "reachable example_engine"
  unfolding reachable_def example_engine_def by blast

lemma valid_examples:
  "is_valid tx1" "is_valid tx2" "\<not> is_valid (mark_cancelled tx3)" "is_valid tx4"
  by (simp_all add: is_valid_iff is_cancelled_of_def mark_cancelled_def example_defs
      dummy_marker_def)

lemma matches_no_filter: "matches st no_filter r"
  by (simp add: matches_def no_filter_def region_ok_def apartment_ok_def date_ok_def
      price_ok_def area_ok_def transit_ok_def units_ok_def education_ok_def)

lemma choose_index_no_filter: "choose_index no_filter = Scan"
  by (simp add: choose_index_def no_filter_def prefix_by_apt_def prefix_by_date_def
      prefix_by_region_def prefix_by_transit_def)

lemma path_covers_no_filter: "path_covers (choose_index no_filter) st"
  by (simp add: choose_index_no_filter path_covers_def)

lemma search_example_no_filter: "fst (search example_engine no_filter) = Inr [tx2, tx4, tx1]"
proof -
  have "ranges_ok no_filter" by (simp add: ranges_ok_def no_filter_def)
  moreover have "order_results no_filter [tx1, tx2, tx4] = [tx2, tx4, tx1]"
    by (simp add: order_results_def no_filter_def order_key_def example_defs)
  ultimately show ?thesis
    by (simp add: fst_search_scan reachable_inv reachable_example store_example
        matches_no_filter valid_examples path_covers_no_filter)
qed

lemma search_output_sound:
  assumes "reachable st" and "fst (search st f) = Inr out"
  shows "set out \<subseteq> {r \<in> set (store st). is_valid r \<and> matches st f r}"
  using search_via_sound(1) [of st "choose_index f" f out] assms
  by (simp add: search_def reachable_inv)


lemma search_invalid: "\<not> ranges_ok f \<Longrightarrow> search st f = (Inl InvalidFilter, [])"
  by (simp add: search_def search_via_def)

lemma search_none_match:
  assumes "reachable st" and "ranges_ok f"
    and "\<And>r. r \<in> set (store st) \<Longrightarrow> \<not> matches st f r"
  shows "fst (search st f) = Inr []"
proof -
  from assms(2) obtain out where out: "fst (search st f) = Inr out"
    by (simp add: search_def search_via_def)
  with assms(1) have sub: "set out \<subseteq> {r \<in> set (store st). is_valid r \<and> matches st f r}"
    by (rule search_output_sound)
  have "r \<notin> set out" for r
  proof
    assume "r \<in> set out"
    with sub have "r \<in> set (store st)" and "matches st f r" by auto
    with assms(3) show False by simp
  qed
  then have "out = []" by (cases out) auto
  with out show ?thesis by simp
qed



lemma search_via_example_scan:
  "fst (search_via Scan example_engine no_filter) = Inr [tx2, tx4, tx1]"
  using search_example_no_filter
  by (simp add: search_def choose_index_no_filter)

lemma mset_samples:
  assumes "engine_inv st"
  shows "mset (samples mb st a we n) =
           mset (filter (\<lambda>r. is_valid r \<and> apt_id r = a
                     \<and> mb we n \<le> contract_date r \<and> contract_date r \<le> we) (store st))"
proof -
  let ?W = "\<lambda>r. is_valid r \<and> mb we n \<le> contract_date r \<and> contract_date r \<le> we"
  have "mset (candidates (ByApartment a) st) =
          mset (filter (\<lambda>r. is_valid r \<and> apt_id r = a) (store st))"
    using assms by (rule mset_candidates_by_apt)
  then have "mset (filter ?W (candidates (ByApartment a) st)) =
          mset (filter ?W (filter (\<lambda>r. is_valid r \<and> apt_id r = a) (store st)))"
    by (rule mset_filter_of_mset)
  also have "filter ?W (filter (\<lambda>r. is_valid r \<and> apt_id r = a) (store st)) =
          filter (\<lambda>r. is_valid r \<and> apt_id r = a
                     \<and> mb we n \<le> contract_date r \<and> contract_date r \<le> we) (store st)"
    unfolding filter_filter by (rule filter_cong) auto
  finally show ?thesis by (simp add: samples_def)
qed

lemma sum_list_map_mset:
  fixes f :: "'a \<Rightarrow> rat"
  assumes "mset xs = mset ys"
  shows "sum_list (map f xs) = sum_list (map f ys)"
proof -
  have "sum_list (map f xs) = sum_mset (image_mset f (mset xs))"
    by (simp add: sum_mset_sum_list [symmetric])
  also have "\<dots> = sum_mset (image_mset f (mset ys))" by (simp add: assms)
  also have "\<dots> = sum_list (map f ys)" by (simp add: sum_mset_sum_list [symmetric])
  finally show ?thesis .
qed

lemma aggregator_mset:
  assumes "mset xs = mset ys"
  shows "aggregator xs = aggregator ys"
proof -
  from assms have "length xs = length ys" by (rule mset_eq_length)
  moreover from assms have "(xs = []) = (ys = [])" by (metis mset_zero_iff)
  ultimately show ?thesis
    using sum_list_map_mset [OF assms, of "\<lambda>r. of_int (price_of r)"]
      sum_list_map_mset [OF assms, of exclusive_area]
    by (simp add: aggregator_def mean_def)
qed

lemma of_int_sum_list_map: "(of_int (sum_list (map f xs)) :: rat) = sum_list (map (\<lambda>x. of_int (f x)) xs)"
  by (induction xs) simp_all

lemma price_examples: "price_of tx1 = 500" "price_of tx2 = 700"
  by (simp_all add: price_of_def example_defs)

lemma search_output_valid:
  assumes "fst (search st f) = Inr out" and "r \<in> set out"
  shows "is_valid r"
  using assms by (auto simp: search_def search_via_def split: if_splits)

lemma samples_valid: "r \<in> set (samples mb st a we n) \<Longrightarrow> is_valid r"
  by (simp add: samples_def)

lemma samples_in_store:
  assumes "engine_inv st" and "r \<in> set (samples mb st a we n)"
  shows "r \<in> set (store st)"
proof -
  from assms(2) have "r \<in># mset (samples mb st a we n)" by simp
  then show ?thesis unfolding mset_samples [OF assms(1)] by simp
qed

lemma cancel_keeps_record:
  assumes inv: "engine_inv st" and r: "r \<in> set (store st)" and v: "variant r = Sale p c"
  shows "mark_cancelled r \<in> set (store (cancel (trans_id r) st))"
proof -
  from inv have "distinct (map trans_id (store st))" by (simp add: engine_inv_def)
  then have "fetch st (trans_id r) = Some r"
    using r unfolding fetch_def by (rule find_trans_id_member)
  with v have "store (cancel (trans_id r) st) =
      map (\<lambda>x. if trans_id x = trans_id r then mark_cancelled x else x) (store st)"
    by (simp add: cancel_def)
  with r show ?thesis by force
qed

lemma soft_delete_keeps_record:
  assumes "r \<in> set (store st)"
  shows "mark_deleted r \<in> set (store (soft_delete (trans_id r) st))"
  using assms by (force simp: soft_delete_def)

lemma is_deleted_mark_cancelled [simp]: "is_deleted (mark_cancelled r) = is_deleted r"
  by (simp add: mark_cancelled_def split: variant.splits)

lemma image_trans_id_flagged:
  assumes "\<And>r. trans_id (g r) = trans_id r"
  shows "trans_id ` set (map (\<lambda>r. if trans_id r = j then g r else r) xs) = trans_id ` set xs"
proof -
  have "set (map trans_id (map (\<lambda>r. if trans_id r = j then g r else r) xs)) =
          set (map trans_id xs)"
    using assms by (simp only: map_trans_id_flagged)
  then show ?thesis by (simp only: set_map)
qed

lemma deleted_id_apply_op:
  assumes "i \<in> trans_id ` set (store st)"
    and "\<forall>r \<in> set (store st). trans_id r = i \<longrightarrow> is_deleted r = Some True"
  shows "i \<in> trans_id ` set (store (apply_op x st))
         \<and> (\<forall>r \<in> set (store (apply_op x st)). trans_id r = i \<longrightarrow> is_deleted r = Some True)"
proof (cases x)
  case (Insert r')
  with assms show ?thesis by (auto simp: insert_tx_def)
next
  case (Cancel j)
  have "store (cancel j st) = store st \<or>
        store (cancel j st) = map (\<lambda>r. if trans_id r = j then mark_cancelled r else r) (store st)"
    by (simp add: cancel_def split: option.splits variant.splits)
  then show ?thesis
  proof
    assume "store (cancel j st) = store st"
    with Cancel assms show ?thesis by simp
  next
    assume s: "store (cancel j st) =
        map (\<lambda>r. if trans_id r = j then mark_cancelled r else r) (store st)"
    have "trans_id ` set (store (cancel j st)) = trans_id ` set (store st)"
      unfolding s by (rule image_trans_id_flagged) simp
    moreover have "\<forall>r \<in> set (store (cancel j st)). trans_id r = i \<longrightarrow> is_deleted r = Some True"
      unfolding s using assms(2) by auto
    ultimately show ?thesis using Cancel assms(1) by simp
  qed
next
  case (SoftDelete j)
  have s: "store (soft_delete j st) =
        map (\<lambda>r. if trans_id r = j then mark_deleted r else r) (store st)"
    by (simp add: soft_delete_def)
  have "trans_id ` set (store (soft_delete j st)) = trans_id ` set (store st)"
    unfolding s by (rule image_trans_id_flagged) simp
  moreover have "\<forall>r \<in> set (store (soft_delete j st)). trans_id r = i \<longrightarrow> is_deleted r = Some True"
    unfolding s using assms(2) by (auto simp: mark_deleted_def)
  ultimately show ?thesis using SoftDelete assms(1) by simp
next
  case Rebuild
  with assms show ?thesis by (simp add: rebuild_indexes_def)
qed

lemma deleted_id_run:
  assumes "i \<in> trans_id ` set (store st)"
    and "\<forall>r \<in> set (store st). trans_id r = i \<longrightarrow> is_deleted r = Some True"
  shows "\<forall>r \<in> set (store (run xs st)). trans_id r = i \<longrightarrow> is_deleted r = Some True"
  using assms
proof (induction xs arbitrary: st)
  case Nil
  then show ?case by simp
next
  case (Cons x xs)
  from deleted_id_apply_op [OF Cons.prems, of x]
  have "i \<in> trans_id ` set (store (apply_op x st))"
    and "\<forall>r \<in> set (store (apply_op x st)). trans_id r = i \<longrightarrow> is_deleted r = Some True"
    by blast+
  then have "\<forall>r \<in> set (store (run xs (apply_op x st))).
      trans_id r = i \<longrightarrow> is_deleted r = Some True"
    by (rule Cons.IH)
  then show ?case by simp
qed

lemma deleted_after_soft_delete:
  assumes "r \<in> set (store st)"
  shows "\<forall>r' \<in> set (store (run xs (soft_delete (trans_id r) st))).
           trans_id r' = trans_id r \<longrightarrow> is_deleted r' = Some True"
proof (rule deleted_id_run)
  have "mark_deleted r \<in> set (store (soft_delete (trans_id r) st))"
    using assms by (rule soft_delete_keeps_record)
  then have "trans_id (mark_deleted r) \<in> trans_id ` set (store (soft_delete (trans_id r) st))"
    by (rule imageI)
  then show "trans_id r \<in> trans_id ` set (store (soft_delete (trans_id r) st))" by simp
  show "\<forall>r' \<in> set (store (soft_delete (trans_id r) st)).
          trans_id r' = trans_id r \<longrightarrow> is_deleted r' = Some True"
    by (auto simp: soft_delete_def mark_deleted_def)
qed

lemma reachable_apply_op: "reachable st \<Longrightarrow> reachable (apply_op x st)"
  using reachable_run [of st "[x]"] by simp

lemma search_example_after_soft_delete:
  "fst (search (soft_delete 1 example_engine) no_filter) = Inr [tx2, tx4]"
proof -
  have re: "reachable (soft_delete 1 example_engine)"
    using reachable_apply_op [OF reachable_example, of "SoftDelete 1"] by simp
  have st: "store (soft_delete 1 example_engine) =
      [mark_deleted tx1, tx2, mark_cancelled tx3, tx4]"
    by (simp add: soft_delete_def store_example mark_cancelled_def)
       (simp add: example_defs)
  have "ranges_ok no_filter" by (simp add: ranges_ok_def no_filter_def)
  moreover have "order_results no_filter [tx2, tx4] = [tx2, tx4]"
    by (simp add: order_results_def no_filter_def order_key_def example_defs)
  ultimately show ?thesis
    by (simp add: fst_search_scan reachable_inv re st matches_no_filter valid_examples
        not_valid_mark_deleted path_covers_no_filter)
qed



























section \<open>Claims about the search executor and the aggregator\<close>





text \<open>
  Claim C4 (against the engine modelled from the specification). A filter with a date, price
  or area range whose lower bound exceeds its upper bound, such as the price range
  (800, 600), makes search fail with InvalidFilter, and the list of index lookups it
  performed is empty. In a reachable state, a filter with well-formed ranges on an apartment
  that no stored record refers to, or on a region that no apartment belongs to, gives the
  empty sequence and no error.
\<close>

theorem search_invalid_filter:
  "(f_date_range f = Some (dlo, dhi) \<and> dhi < dlo \<longrightarrow> search st f = (Inl InvalidFilter, []))
   \<and> (f_price_range f = Some (plo, phi) \<and> phi < plo \<longrightarrow> search st f = (Inl InvalidFilter, []))
   \<and> (f_area_range f = Some (alo, ahi) \<and> ahi < alo \<longrightarrow> search st f = (Inl InvalidFilter, []))
   \<and> (f_price_range f = Some (800, 600) \<longrightarrow> search st f = (Inl InvalidFilter, []))
   \<and> (reachable st \<and> ranges_ok f \<and> f_apt_id f = Some a
        \<and> (\<forall>r \<in> set (store st). apt_id r \<noteq> a) \<longrightarrow> fst (search st f) = Inr [])
   \<and> (reachable st \<and> ranges_ok f \<and> f_region_id f = Some g
        \<and> (\<forall>p \<in> set (apartments st). region_id p \<noteq> g) \<longrightarrow> fst (search st f) = Inr [])"
proof (intro conjI impI)
  show "search st f = (Inl InvalidFilter, [])" if "f_date_range f = Some (dlo, dhi) \<and> dhi < dlo"
    using that by (intro search_invalid) (simp add: ranges_ok_def)
  show "search st f = (Inl InvalidFilter, [])" if "f_price_range f = Some (plo, phi) \<and> phi < plo"
    using that by (intro search_invalid) (simp add: ranges_ok_def)
  show "search st f = (Inl InvalidFilter, [])" if "f_area_range f = Some (alo, ahi) \<and> ahi < alo"
    using that by (intro search_invalid) (simp add: ranges_ok_def)
  show "search st f = (Inl InvalidFilter, [])" if "f_price_range f = Some (800, 600)"
    using that by (intro search_invalid) (simp add: ranges_ok_def)
  show "fst (search st f) = Inr []"
    if "reachable st \<and> ranges_ok f \<and> f_apt_id f = Some a
        \<and> (\<forall>r \<in> set (store st). apt_id r \<noteq> a)"
    using that by (intro search_none_match) (auto simp: matches_def apartment_ok_def)
  show "fst (search st f) = Inr []"
    if h: "reachable st \<and> ranges_ok f \<and> f_region_id f = Some g
        \<and> (\<forall>p \<in> set (apartments st). region_id p \<noteq> g)"
  proof (rule search_none_match)
    show "reachable st" "ranges_ok f" using h by simp_all
    show "\<not> matches st f r" if "r \<in> set (store st)" for r
    proof (cases "apartment_of st (apt_id r)")
      case None
      with h show ?thesis by (simp add: matches_def region_ok_def)
    next
      case (Some p)
      then have "p \<in> set (apartments st)"
        by (auto simp: apartment_of_def find_Some_iff)
      with h Some show ?thesis by (auto simp: matches_def region_ok_def)
    qed
  qed
qed

theorem search_invalid_filter_witness:
  "search example_engine (no_filter\<lparr>f_price_range := Some (800, 600)\<rparr>) = (Inl InvalidFilter, [])
   \<and> fst (search example_engine (no_filter\<lparr>f_apt_id := Some 9\<rparr>)) = Inr []
   \<and> fst (search example_engine (no_filter\<lparr>f_region_id := Some 12\<rparr>)) = Inr []"
proof -
  have r: "ranges_ok (no_filter\<lparr>f_apt_id := Some 9\<rparr>)"
    "ranges_ok (no_filter\<lparr>f_region_id := Some 12\<rparr>)"
    by (simp_all add: ranges_ok_def no_filter_def)
  have a: "\<forall>r \<in> set (store example_engine). apt_id r \<noteq> 9"
    by (simp add: store_example mark_cancelled_def example_defs)
  have g: "\<forall>p \<in> set (apartments example_engine). region_id p \<noteq> 12"
    by (simp add: dims_example example_defs)
  have "search example_engine (no_filter\<lparr>f_price_range := Some (800, 600)\<rparr>)
          = (Inl InvalidFilter, [])"
    using search_invalid_filter
      [of "no_filter\<lparr>f_price_range := Some (800, 600)\<rparr>" 0 0 example_engine 0 0 0 0 0 0]
    by simp
  moreover have "fst (search example_engine (no_filter\<lparr>f_apt_id := Some 9\<rparr>)) = Inr []"
    using search_invalid_filter
      [of "no_filter\<lparr>f_apt_id := Some 9\<rparr>" 0 0 example_engine 0 0 0 0 9 0]
      reachable_example r a
    by simp
  moreover have "fst (search example_engine (no_filter\<lparr>f_region_id := Some 12\<rparr>)) = Inr []"
    using search_invalid_filter
      [of "no_filter\<lparr>f_region_id := Some 12\<rparr>" 0 0 example_engine 0 0 0 0 0 12]
      reachable_example r g
    by simp
  ultimately show ?thesis by simp
qed

text \<open>
  Claim C5 (against the engine modelled from the specification). In every reachable state,
  with \<open>S\<close> the valid records of the apartment in the base store whose contract date lies
  between the start of the window and its end, both inclusive, aggregate returns the number
  of records of \<open>S\<close> and the arithmetic means of their prices and of their areas; with no
  such record both averages are absent; for two records of prices 500 and 700 the average
  price is 600.
\<close>

theorem aggregate_mean:
  "reachable st \<Longrightarrow>
   S = filter (\<lambda>r. is_valid r \<and> apt_id r = a
                 \<and> months_before window_end n \<le> contract_date r
                 \<and> contract_date r \<le> window_end) (store st) \<Longrightarrow>
     sample_count (aggregate months_before st a window_end n) = length S
     \<and> avg_price (aggregate months_before st a window_end n) =
         (if S = [] then None
          else Some (of_int (sum_list (map price_of S)) / of_nat (length S)))
     \<and> avg_area (aggregate months_before st a window_end n) =
         (if S = [] then None
          else Some (sum_list (map exclusive_area S) / of_nat (length S)))
     \<and> (sample_count (aggregate months_before st a window_end n) = 0 \<longrightarrow>
          avg_price (aggregate months_before st a window_end n) = None
          \<and> avg_area (aggregate months_before st a window_end n) = None)
     \<and> (S = [r1, r2] \<and> price_of r1 = 500 \<and> price_of r2 = 700 \<longrightarrow>
          avg_price (aggregate months_before st a window_end n) = Some 600)"
proof -
  assume re: "reachable st" and S: "S = filter (\<lambda>r. is_valid r \<and> apt_id r = a
                 \<and> months_before window_end n \<le> contract_date r
                 \<and> contract_date r \<le> window_end) (store st)"
  from re have "engine_inv st" by (rule reachable_inv)
  then have "mset (samples months_before st a window_end n) = mset S"
    unfolding S by (rule mset_samples)
  then have agg: "aggregate months_before st a window_end n = aggregator S"
    unfolding aggregate_def by (rule aggregator_mset)
  have c: "sample_count (aggregator S) = length S" by (simp add: aggregator_def)
  have p: "avg_price (aggregator S) =
         (if S = [] then None
          else Some (of_int (sum_list (map price_of S)) / of_nat (length S)))"
    by (simp add: aggregator_def mean_def of_int_sum_list_map comp_def)
  have ar: "avg_area (aggregator S) =
         (if S = [] then None
          else Some (sum_list (map exclusive_area S) / of_nat (length S)))"
    by (simp add: aggregator_def mean_def)
  have z: "sample_count (aggregator S) = 0 \<longrightarrow>
          avg_price (aggregator S) = None \<and> avg_area (aggregator S) = None"
    by (simp add: aggregator_def mean_def)
  have e: "S = [r1, r2] \<and> price_of r1 = 500 \<and> price_of r2 = 700 \<longrightarrow>
          avg_price (aggregator S) = Some 600"
    by (auto simp: aggregator_def mean_def)
  from c p ar z e show ?thesis unfolding agg by blast
qed

theorem aggregate_mean_witness:
  "filter (\<lambda>r. is_valid r \<and> apt_id r = 7
                 \<and> thirty_day_months 20010 6 \<le> contract_date r
                 \<and> contract_date r \<le> 20010) (store example_engine) = [tx1, tx2]
   \<and> price_of tx1 = 500 \<and> price_of tx2 = 700
   \<and> sample_count (aggregate thirty_day_months example_engine 7 20010 6) = 2
   \<and> avg_price (aggregate thirty_day_months example_engine 7 20010 6) = Some 600
   \<and> sample_count (aggregate thirty_day_months example_engine 9 20010 6) = 0
   \<and> avg_price (aggregate thirty_day_months example_engine 9 20010 6) = None
   \<and> avg_area (aggregate thirty_day_months example_engine 9 20010 6) = None"
proof -
  have S7: "filter (\<lambda>r. is_valid r \<and> apt_id r = 7
                 \<and> thirty_day_months 20010 6 \<le> contract_date r
                 \<and> contract_date r \<le> 20010) (store example_engine) = [tx1, tx2]"
    by (simp add: store_example valid_examples)
       (simp add: example_defs thirty_day_months_def)
  have S9: "filter (\<lambda>r. is_valid r \<and> apt_id r = 9
                 \<and> thirty_day_months 20010 6 \<le> contract_date r
                 \<and> contract_date r \<le> 20010) (store example_engine) = []"
    by (simp add: store_example valid_examples)
       (simp add: example_defs thirty_day_months_def mark_cancelled_def)
  from aggregate_mean [where st = example_engine and S = "[tx1, tx2]" and a = 7
      and months_before = thirty_day_months and window_end = 20010 and n = 6
      and ?r1.0 = tx1 and ?r2.0 = tx2] reachable_example S7
  have a: "sample_count (aggregate thirty_day_months example_engine 7 20010 6) = 2
     \<and> avg_price (aggregate thirty_day_months example_engine 7 20010 6) = Some 600"
    by (simp add: price_examples)
  from aggregate_mean [where st = example_engine and S = "[]" and a = 9
      and months_before = thirty_day_months and window_end = 20010 and n = 6
      and ?r1.0 = tx1 and ?r2.0 = tx2] reachable_example S9
  have b: "sample_count (aggregate thirty_day_months example_engine 9 20010 6) = 0
     \<and> avg_price (aggregate thirty_day_months example_engine 9 20010 6) = None
     \<and> avg_area (aggregate thirty_day_months example_engine 9 20010 6) = None"
    by simp
  from S7 a b show ?thesis by (simp add: price_examples)
qed

text \<open>
  Claim C6 (against the engine modelled from the specification). In every reachable state,
  a record whose cancellation flag is true is in no search result and in no sample set of an
  aggregation, while cancelling a sale leaves the record, flagged, in the base store. After
  a soft delete of a stored record, the flagged record is still in the base store, the
  counter of index rebuilds is unchanged, and in that state and every state that later
  writes lead to, no search result and no sample set holds a record with its transaction id.
\<close>

theorem invalid_records_never_returned:
  "reachable st \<Longrightarrow>
     (fst (search st f) = Inr out \<and> is_cancelled_of r = Some True \<longrightarrow> r \<notin> set out)
     \<and> (is_cancelled_of r = Some True \<longrightarrow> r \<notin> set (samples months_before st a window_end n))
     \<and> (r \<in> set (store st) \<and> variant r = Sale p c \<longrightarrow>
          mark_cancelled r \<in> set (store (cancel (trans_id r) st))
          \<and> is_cancelled_of (mark_cancelled r) = Some True
          \<and> is_deleted (mark_cancelled r) = is_deleted r)
     \<and> (r \<in> set (store st) \<and> is_deleted r \<noteq> Some True
          \<and> st' = run ops (soft_delete (trans_id r) st) \<longrightarrow>
          mark_deleted r \<in> set (store (soft_delete (trans_id r) st))
          \<and> rebuilds (soft_delete (trans_id r) st) = rebuilds st
          \<and> (\<forall>f' out'. fst (search st' f') = Inr out' \<longrightarrow> trans_id r \<notin> trans_id ` set out')
          \<and> (\<forall>a' e' n'. trans_id r \<notin> trans_id ` set (samples months_before st' a' e' n')))"
proof (intro conjI impI)
  assume re: "reachable st"
  then have inv: "engine_inv st" by (rule reachable_inv)
  show "r \<notin> set out" if "fst (search st f) = Inr out \<and> is_cancelled_of r = Some True"
    using that search_output_valid [of st f out r] by (auto simp: is_valid_iff)
  show "r \<notin> set (samples months_before st a window_end n)" if "is_cancelled_of r = Some True"
    using that samples_valid [of r months_before st a window_end n] by (auto simp: is_valid_iff)
  {
    assume h: "r \<in> set (store st) \<and> variant r = Sale p c"
    then show "mark_cancelled r \<in> set (store (cancel (trans_id r) st))"
      using inv by (auto intro: cancel_keeps_record)
    from h show "is_cancelled_of (mark_cancelled r) = Some True"
      by (simp add: mark_cancelled_def is_cancelled_of_def)
    show "is_deleted (mark_cancelled r) = is_deleted r" by simp
  }
  {
    assume h: "r \<in> set (store st) \<and> is_deleted r \<noteq> Some True
          \<and> st' = run ops (soft_delete (trans_id r) st)"
    then show "mark_deleted r \<in> set (store (soft_delete (trans_id r) st))"
      by (simp add: soft_delete_keeps_record)
    show "rebuilds (soft_delete (trans_id r) st) = rebuilds st"
      by (simp add: soft_delete_def)
    from h have st': "st' = run (SoftDelete (trans_id r) # ops) st" by simp
    have re': "reachable st'" unfolding st' using re by (rule reachable_run)
    then have inv': "engine_inv st'" by (rule reachable_inv)
    from h have del: "\<forall>r' \<in> set (store st'). trans_id r' = trans_id r \<longrightarrow> is_deleted r' = Some True"
      using deleted_after_soft_delete [of r st ops] by simp
    show "\<forall>f' out'. fst (search st' f') = Inr out' \<longrightarrow> trans_id r \<notin> trans_id ` set out'"
    proof (intro allI impI notI)
      fix f' out' assume s: "fst (search st' f') = Inr out'"
        and "trans_id r \<in> trans_id ` set out'"
      then obtain r' where r': "r' \<in> set out'" "trans_id r' = trans_id r" by auto
      with s re' have "r' \<in> set (store st')" "is_valid r'"
        using search_output_sound [of st' f' out'] by auto
      with del r' show False by (auto simp: is_valid_iff)
    qed
    show "\<forall>a' e' n'. trans_id r \<notin> trans_id ` set (samples months_before st' a' e' n')"
    proof (intro allI notI)
      fix a' e' n' assume "trans_id r \<in> trans_id ` set (samples months_before st' a' e' n')"
      then obtain r' where r': "r' \<in> set (samples months_before st' a' e' n')"
        "trans_id r' = trans_id r" by auto
      then have "r' \<in> set (store st')" "is_valid r'"
        using inv' by (auto intro: samples_in_store samples_valid)
      with del r' show False by (auto simp: is_valid_iff)
    qed
  }
qed

theorem invalid_records_never_returned_witness:
  "mark_cancelled tx3 \<in> set (store example_engine)
   \<and> is_cancelled_of (mark_cancelled tx3) = Some True
   \<and> is_deleted (mark_cancelled tx3) = None
   \<and> fst (search example_engine no_filter) = Inr [tx2, tx4, tx1]
   \<and> mark_cancelled tx3 \<notin> set [tx2, tx4, tx1]
   \<and> tx1 \<in> set (store example_engine)
   \<and> is_deleted tx1 = None
   \<and> mark_deleted tx1 \<in> set (store (soft_delete 1 example_engine))
   \<and> fst (search (soft_delete 1 example_engine) no_filter) = Inr [tx2, tx4]
   \<and> trans_id tx1 \<notin> trans_id ` set [tx2, tx4]
   \<and> rebuilds (soft_delete 1 example_engine) = rebuilds example_engine"
proof -
  have c: "is_cancelled_of (mark_cancelled tx3) = Some True"
    "is_deleted (mark_cancelled tx3) = None"
    by (simp_all add: mark_cancelled_def is_cancelled_of_def example_defs)
  have t1: "tx1 \<in> set (store example_engine)" "is_deleted tx1 = None" "trans_id tx1 = 1"
    by (simp_all add: store_example) (simp_all add: example_defs)
  from invalid_records_never_returned [OF reachable_example,
      where f = no_filter and out = "[tx2, tx4, tx1]" and r = "mark_cancelled tx3"]
    search_example_no_filter c
  have a: "mark_cancelled tx3 \<notin> set [tx2, tx4, tx1]" by blast
  from invalid_records_never_returned [OF reachable_example,
      where r = tx1 and ops = "[]" and st' = "soft_delete 1 example_engine"] t1
  have b: "mark_deleted tx1 \<in> set (store (soft_delete 1 example_engine))
      \<and> rebuilds (soft_delete 1 example_engine) = rebuilds example_engine
      \<and> (\<forall>f' out'. fst (search (soft_delete 1 example_engine) f') = Inr out' \<longrightarrow>
             trans_id tx1 \<notin> trans_id ` set out')"
    by simp
  with search_example_after_soft_delete
  have "trans_id tx1 \<notin> trans_id ` set [tx2, tx4]" by blast
  with a b c t1 show ?thesis
    by (simp add: search_example_no_filter search_example_after_soft_delete store_example)
qed




end
